theory Spec2Isabelle
  imports Main "HOL-Library.Word"
begin

unbundle bit_operations_syntax

section \<open>Common types\<close>

text \<open>
  Bytes are 8-bit words; a \<^verbatim>\<open>const char*\<close> into a buffer is modelled by the bytes from
  the pointer to the end of that buffer. Exceptions are values of the type \<open>error\<close>, one
  constructor per exception class thrown in the sources; \<open>out_of_bounds_read\<close> stands for
  a read past the end of a buffer, which the sources do not check for, and
  \<open>invalidated_pointer\<close> for the use of a pointer into a string whose storage may have
  been moved since the pointer was set.
\<close>


type_synonym byte = "8 word"

datatype error =
    o5m_error string
  | end_of_buffer_exception
  | varint_too_long_exception
  | buffer_is_full
  | logic_error string
  | invalid_argument string
  | out_of_bounds_read
  | invalidated_pointer

section \<open>ReferenceTable (o5m\_input\_format.hpp)\<close>

text \<open>
  The table is a \<^verbatim>\<open>std::string\<close> that is empty until the first \<^verbatim>\<open>add\<close> and then holds
  \<open>number_of_entries * entry_size\<close> bytes. \<^verbatim>\<open>current_entry\<close> is an \<^verbatim>\<open>unsigned int\<close> and
  the index of \<^verbatim>\<open>get\<close> a \<^verbatim>\<open>uint64_t\<close>; \<^verbatim>\<open>get\<close> computes in 64 bits, where
  \<open>current_entry + 15000 - index\<close> neither overflows nor underflows once \<open>index \<le> 15000\<close>
  has been checked, so natural numbers give the same values.
\<close>

definition number_of_entries :: nat where "number_of_entries = 15000"
definition entry_size :: nat where "entry_size = 256"
definition max_length :: nat where "max_length = 250 + 2"

record ReferenceTable =
  m_table :: "byte list"
  current_entry :: nat

definition ReferenceTable_init :: ReferenceTable where
  "ReferenceTable_init = \<lparr>m_table = [], current_entry = 0\<rparr>"

definition ReferenceTable_clear :: "ReferenceTable \<Rightarrow> ReferenceTable" where
  "ReferenceTable_clear t = t\<lparr>current_entry := 0\<rparr>"

definition copy_n :: "byte list \<Rightarrow> nat \<Rightarrow> byte list \<Rightarrow> byte list" where
  "copy_n src off dst = take off dst @ src @ drop (off + length src) dst"

definition ReferenceTable_add :: "byte list \<Rightarrow> ReferenceTable \<Rightarrow> ReferenceTable" where
  "ReferenceTable_add string t =
     (let tab = (if m_table t = [] then replicate (entry_size * number_of_entries) 0
                 else m_table t)
      in if length string \<le> max_length
         then \<lparr>m_table = copy_n string (current_entry t * entry_size) tab,
               current_entry = (if current_entry t + 1 = number_of_entries then 0
                                else current_entry t + 1)\<rparr>
         else t\<lparr>m_table := tab\<rparr>)"

definition ReferenceTable_get :: "nat \<Rightarrow> ReferenceTable \<Rightarrow> error + byte list" where
  "ReferenceTable_get index t =
     (if m_table t = [] \<or> index = 0 \<or> index > number_of_entries
      then Inl (o5m_error ''reference to non-existing string in table'')
      else let entry = (current_entry t + number_of_entries - index) mod number_of_entries
           in Inr (drop (entry * entry_size) (m_table t)))"

text \<open>
  The states the class can be in: the string is empty or fully sized, and the cursor is
  inside the ring.
\<close>

definition table_wf :: "ReferenceTable \<Rightarrow> bool" where
  "table_wf t = ((m_table t = [] \<or> length (m_table t) = entry_size * number_of_entries)
                 \<and> current_entry t < number_of_entries)"

text \<open>A sequence of insertions, first string first.\<close>

fun add_all :: "byte list list \<Rightarrow> ReferenceTable \<Rightarrow> ReferenceTable" where
  "add_all [] t = t"
| "add_all (s # ss) t = add_all ss (ReferenceTable_add s t)"

section \<open>Buffer (buffer.hpp)\<close>

text \<open>
  Sizes and offsets are \<^verbatim>\<open>std::size_t\<close>, taken as 64 bits wide: natural numbers below
  \<open>2 ^ 64\<close>, with every sum, product and difference of the source reduced by \<open>size_t\<close>.
\<close>

definition size_t :: "nat \<Rightarrow> nat" where
  "size_t n = n mod 2 ^ 64"

text \<open>
  Modelled from the spec: item.hpp, which declares \<^verbatim>\<open>align_bytes\<close> and
  \<^verbatim>\<open>padded_length\<close>, is not among the sources. Records are padded to a multiple of the
  alignment, 8 bytes: \<^verbatim>\<open>(length + align_bytes - 1) & ~(align_bytes - 1)\<close>.
\<close>

definition align_bytes :: nat where "align_bytes = 8"

definition padded_length :: "nat \<Rightarrow> nat" where
  "padded_length len = (size_t (len + align_bytes - 1) div align_bytes) * align_bytes"

text \<open>
  The members of the class. \<^verbatim>\<open>m_memory\<close> records whether the buffer owns its storage (the
  unique pointer is not null); \<^verbatim>\<open>m_data\<close> is \<open>None\<close> for the null pointer and otherwise
  the storage it points to. The chain of nested buffers behind \<^verbatim>\<open>m_next_buffer\<close> is a list,
  nearest buffer first. \<^verbatim>\<open>m_builder_count\<close> exists in debug builds only and assertions are
  not part of the model. The callback \<^verbatim>\<open>m_full\<close> is passed to \<open>reserve_space\<close> as an
  argument, \<open>None\<close> when no callback is set.
\<close>

datatype auto_grow = auto_grow_no | auto_grow_yes | auto_grow_internal

record nested_buffer =
  nested_data :: "byte list"
  nested_capacity :: nat
  nested_committed :: nat

record Buffer =
  m_next_buffer :: "nested_buffer list"
  m_memory :: bool
  m_data :: "byte list option"
  m_capacity :: nat
  m_written :: nat
  m_committed :: nat
  m_auto_grow :: auto_grow

text \<open>
  \<^verbatim>\<open>new unsigned char[n]\<close>: the contents of fresh storage are indeterminate; the model
  fills it with zero bytes and no theorem below depends on them.
\<close>

definition new_bytes :: "nat \<Rightarrow> byte list" where
  "new_bytes n = replicate n 0"

definition min_capacity :: nat where "min_capacity = 64"

definition calculate_capacity :: "nat \<Rightarrow> nat" where
  "calculate_capacity cap =
     (if cap < min_capacity then min_capacity else padded_length cap)"

text \<open>
  The constructors: \<^verbatim>\<open>Buffer()\<close>, \<^verbatim>\<open>Buffer(data, size)\<close>, the two constructors taking a
  capacity and a committed size (external storage, or storage handed over in a unique
  pointer: \<open>owned\<close>), \<^verbatim>\<open>Buffer(capacity, auto_grow)\<close>, and the move constructor, which
  returns the new buffer and what is left of the old one.
\<close>

definition Buffer_default :: Buffer where
  "Buffer_default = \<lparr>m_next_buffer = [], m_memory = False, m_data = None, m_capacity = 0,
                      m_written = 0, m_committed = 0, m_auto_grow = auto_grow_no\<rparr>"

definition Buffer_external :: "byte list \<Rightarrow> nat \<Rightarrow> error + Buffer" where
  "Buffer_external mem sz =
     (if sz mod align_bytes \<noteq> 0
      then Inl (invalid_argument ''buffer size needs to be multiple of alignment'')
      else Inr \<lparr>m_next_buffer = [], m_memory = False, m_data = Some mem, m_capacity = sz,
                m_written = sz, m_committed = sz, m_auto_grow = auto_grow_no\<rparr>)"

definition Buffer_with_committed :: "bool \<Rightarrow> byte list \<Rightarrow> nat \<Rightarrow> nat \<Rightarrow> error + Buffer" where
  "Buffer_with_committed owned mem cap com =
     (if cap mod align_bytes \<noteq> 0
      then Inl (invalid_argument ''buffer capacity needs to be multiple of alignment'')
      else if com mod align_bytes \<noteq> 0
      then Inl (invalid_argument ''buffer parameter 'committed' needs to be multiple of alignment'')
      else if com > cap
      then Inl (invalid_argument ''buffer parameter 'committed' can not be larger than capacity'')
      else Inr \<lparr>m_next_buffer = [], m_memory = owned, m_data = Some mem,
                m_capacity = cap, m_written = com, m_committed = com,
                m_auto_grow = auto_grow_no\<rparr>)"

definition Buffer_new :: "nat \<Rightarrow> auto_grow \<Rightarrow> Buffer" where
  "Buffer_new cap ag =
     \<lparr>m_next_buffer = [], m_memory = True,
      m_data = Some (new_bytes (calculate_capacity cap)),
      m_capacity = calculate_capacity cap, m_written = 0, m_committed = 0,
      m_auto_grow = ag\<rparr>"

definition Buffer_move :: "Buffer \<Rightarrow> Buffer \<times> Buffer" where
  "Buffer_move other =
     (other,
      other\<lparr>m_next_buffer := [], m_memory := False, m_data := None, m_capacity := 0,
             m_written := 0, m_committed := 0\<rparr>)"

text \<open>
  The observers, \<^verbatim>\<open>operator bool\<close>, and \<^verbatim>\<open>data()\<close> (no bytes for the null pointer).
\<close>

definition capacity :: "Buffer \<Rightarrow> nat" where "capacity b = m_capacity b"
definition committed :: "Buffer \<Rightarrow> nat" where "committed b = m_committed b"
definition written :: "Buffer \<Rightarrow> nat" where "written b = m_written b"
definition operator_bool :: "Buffer \<Rightarrow> bool" where "operator_bool b = (m_data b \<noteq> None)"

definition buffer_data :: "Buffer \<Rightarrow> byte list" where
  "buffer_data b = (case m_data b of Some d \<Rightarrow> d | None \<Rightarrow> [])"

text \<open>
  \<^verbatim>\<open>grow_internal\<close> moves the storage into a new nested buffer, allocates storage of the
  same capacity and copies the uncommitted tail to its start. \<^verbatim>\<open>grow\<close> reallocates to
  \<open>calculate_capacity size\<close> when that is larger, copying \<^verbatim>\<open>m_capacity\<close> bytes.
\<close>

definition grow_internal :: "Buffer \<Rightarrow> error + Buffer" where
  "grow_internal b =
     (if \<not> m_memory b
      then Inl (logic_error ''Can't grow Buffer if it doesn't use internal memory management.'')
      else case Buffer_with_committed True (buffer_data b) (m_capacity b) (m_committed b) of
             Inl e \<Rightarrow> Inl e
           | Inr old \<Rightarrow>
               let w = size_t (m_written b + 2 ^ 64 - m_committed b);
                   fresh = new_bytes (m_capacity b)
               in Inr (b\<lparr>m_data := Some (copy_n (take w (drop (m_committed b) (buffer_data old))) 0 fresh),
                         m_written := w,
                         m_committed := 0,
                         m_next_buffer :=
                           \<lparr>nested_data = buffer_data old, nested_capacity = m_capacity old,
                            nested_committed = m_committed old\<rparr> # m_next_buffer b\<rparr>))"

definition grow :: "nat \<Rightarrow> Buffer \<Rightarrow> error + Buffer" where
  "grow sz b =
     (if \<not> m_memory b
      then Inl (logic_error ''Can't grow Buffer if it doesn't use internal memory management.'')
      else let size' = calculate_capacity sz
           in if m_capacity b < size'
              then Inr (b\<lparr>m_data := Some (copy_n (take (m_capacity b) (buffer_data b)) 0 (new_bytes size')),
                          m_capacity := size'\<rparr>)
              else Inr b)"

definition commit :: "Buffer \<Rightarrow> nat \<times> Buffer" where
  "commit b = (m_committed b, b\<lparr>m_committed := m_written b\<rparr>)"

definition rollback :: "Buffer \<Rightarrow> Buffer" where
  "rollback b = b\<lparr>m_written := m_committed b\<rparr>"

definition clear :: "Buffer \<Rightarrow> nat \<times> Buffer" where
  "clear b = (m_committed b, b\<lparr>m_written := 0, m_committed := 0\<rparr>)"

text \<open>
  The loop \<^verbatim>\<open>while (m_written + size > new_capacity) new_capacity *= 2\<close> of
  \<^verbatim>\<open>reserve_space\<close>. It does not end once the doubling wraps around to zero, so the
  model is a partial function and \<open>reserve_space\<close> returns an option: \<open>None\<close> when the
  loop runs forever, \<open>Inl\<close> for an exception, \<open>Inr (offset, buffer)\<close> for the reserved
  space (the offset of the returned pointer) and the new state.
\<close>

partial_function (option) double_capacity :: "nat \<Rightarrow> nat \<Rightarrow> nat option" where
  "double_capacity need new_capacity =
     (if need > new_capacity then double_capacity need (size_t (new_capacity * 2))
      else Some new_capacity)"

definition reserve_space ::
  "(Buffer \<Rightarrow> Buffer) option \<Rightarrow> nat \<Rightarrow> Buffer \<Rightarrow> (error + nat \<times> Buffer) option" where
  "reserve_space full sz b =
     (let b1 = (if size_t (m_written b + sz) > m_capacity b
                then (case full of Some f \<Rightarrow> f b | None \<Rightarrow> b) else b);
          finish = (\<lambda>b'. Some (Inr (m_written b', b'\<lparr>m_written := size_t (m_written b' + sz)\<rparr>)))
      in if size_t (m_written b1 + sz) > m_capacity b1
         then if \<not> m_memory b1 \<or> m_auto_grow b1 = auto_grow_no
              then Some (Inl buffer_is_full)
              else case (if m_auto_grow b1 = auto_grow_internal \<and> m_committed b1 \<noteq> 0
                         then grow_internal b1 else Inr b1) of
                     Inl e \<Rightarrow> Some (Inl e)
                   | Inr b2 \<Rightarrow>
                       if size_t (m_written b2 + sz) > m_capacity b2
                       then case double_capacity (size_t (m_written b2 + sz))
                                   (size_t (m_capacity b2 * 2)) of
                              None \<Rightarrow> None
                            | Some new_capacity \<Rightarrow>
                                (case grow new_capacity b2 of
                                   Inl e \<Rightarrow> Some (Inl e)
                                 | Inr b3 \<Rightarrow> finish b3)
                       else finish b2
         else finish b1)"



text \<open>
  Modelled from the spec: Item (item.hpp), ItemIterator (item\_iterator.hpp) and OSMEntity
  (entity.hpp) are not among the sources. A record in the buffer is its padded bytes, its
  tombstone flag and whether its type tag is that of an \<^verbatim>\<open>OSMEntity\<close>;
  \<^verbatim>\<open>padded_size()\<close> is the number of those bytes. buffer.hpp declares its \<^verbatim>\<open>iterator\<close> as
  \<^verbatim>\<open>t_iterator<osmium::OSMEntity>\<close>, the iterator over the \<^verbatim>\<open>OSMEntity\<close> objects of the
  buffer: it stands at entities only. An iterator is the records from its position to the
  end of the committed region together with its offset; its constructor and its
  \<^verbatim>\<open>operator++\<close> (which \<^verbatim>\<open>std::next\<close> applies) pass over the records of other types with
  \<^verbatim>\<open>advance_to_next_item_of_right_type\<close>, and \<^verbatim>\<open>advance_once\<close> moves over one record of
  any type.
\<close>

record Item =
  item_data :: "byte list"
  item_removed :: bool
  item_entity :: bool

definition padded_size :: "Item \<Rightarrow> nat" where
  "padded_size item = length (item_data item)"

fun advance_to_next_item_of_right_type :: "Item list \<Rightarrow> nat \<Rightarrow> Item list \<times> nat" where
  "advance_to_next_item_of_right_type [] pos = ([], pos)"
| "advance_to_next_item_of_right_type (item # items) pos =
     (if item_entity item then (item # items, pos)
      else advance_to_next_item_of_right_type items (pos + padded_size item))"

definition add_item ::
  "(Buffer \<Rightarrow> Buffer) option \<Rightarrow> Item \<Rightarrow> Buffer \<Rightarrow> (error + nat \<times> Buffer) option" where
  "add_item full item b =
     (case reserve_space full (padded_size item) b of
        None \<Rightarrow> None
      | Some (Inl e) \<Rightarrow> Some (Inl e)
      | Some (Inr (target, b')) \<Rightarrow>
          Some (Inr (target, b'\<lparr>m_data := Some (copy_n (item_data item) target (buffer_data b'))\<rparr>)))"

text \<open>
  \<^verbatim>\<open>purge_removed\<close>. The list \<open>items\<close> holds the records of the committed region in
  memory order. \<open>begin()\<close> is the iterator at the first entity, and \<^verbatim>\<open>begin() == end()\<close>
  holds when there is none. \<open>it_read\<close> and \<open>it_write\<close> are the offsets of the two
  iterators; the loop runs over the entities from \<open>it_read\<close> on, \<open>next\<close> is
  \<^verbatim>\<open>std::next(it_read)\<close>, the next entity, while \<^verbatim>\<open>it_write.advance_once()\<close> moves the
  write iterator over the record that stands at it, which is the record just kept. The
  calls of \<^verbatim>\<open>moving_in_buffer\<close> are collected in order.
\<close>

definition memmove :: "nat \<Rightarrow> nat \<Rightarrow> nat \<Rightarrow> byte list \<Rightarrow> byte list" where
  "memmove dst src n mem = copy_n (take n (drop src mem)) dst mem"

lemma advance_to_next_item_of_right_type_length:
  "(entities, next) = advance_to_next_item_of_right_type items pos \<Longrightarrow>
   length entities < Suc (length items)"
proof (induction items arbitrary: pos)
  case Nil
  then show ?case by simp
next
  case (Cons item items)
  then show ?case by (cases "item_entity item") (auto simp: less_Suc_eq)
qed

function purge_loop ::
  "Item list \<Rightarrow> nat \<Rightarrow> nat \<Rightarrow> byte list \<Rightarrow> (nat \<times> nat) list
     \<Rightarrow> nat \<times> byte list \<times> (nat \<times> nat) list" where
  "purge_loop [] it_read it_write mem calls = (it_write, mem, calls)"
| "purge_loop (item # items) it_read it_write mem calls =
     (case advance_to_next_item_of_right_type items (it_read + padded_size item) of
        (entities, next) \<Rightarrow>
          if \<not> item_removed item
          then if it_read \<noteq> it_write
               then purge_loop entities next (it_write + padded_size item)
                      (memmove it_write it_read (padded_size item) mem)
                      (calls @ [(it_read, it_write)])
               else purge_loop entities next (it_write + padded_size item) mem calls
          else purge_loop entities next it_write mem calls)"
  by pat_completeness auto
termination
  by (relation "measure (\<lambda>(items, it_read, it_write, mem, calls). length items)")
     (auto dest: advance_to_next_item_of_right_type_length)

declare purge_loop.simps [simp del]

definition purge_removed :: "Item list \<Rightarrow> Buffer \<Rightarrow> Buffer \<times> (nat \<times> nat) list" where
  "purge_removed items b =
     (case advance_to_next_item_of_right_type items 0 of
        (entities, first) \<Rightarrow>
          if entities = [] then (b, [])
          else case purge_loop entities first first (buffer_data b) [] of
                 (it_write, mem, calls) \<Rightarrow>
                   (b\<lparr>m_data := Some mem, m_written := it_write, m_committed := it_write\<rparr>, calls))"

text \<open>
  For stating the properties of \<open>purge_removed\<close>: the committed region holds exactly the
  records \<open>items\<close>, none of them empty (a record is at least its header); the records
  that survive; the old and the new offset of each surviving record, in buffer order; the
  sum of the padded sizes.
\<close>

definition committed_items :: "Buffer \<Rightarrow> Item list \<Rightarrow> bool" where
  "committed_items b items =
     (m_committed b \<le> length (buffer_data b) \<and>
      take (m_committed b) (buffer_data b) = concat (map item_data items) \<and>
      list_all (\<lambda>item. 0 < padded_size item) items)"

definition survivors :: "Item list \<Rightarrow> Item list" where
  "survivors items = filter (\<lambda>item. \<not> item_removed item) items"

fun old_new_offsets :: "Item list \<Rightarrow> nat \<Rightarrow> nat \<Rightarrow> (nat \<times> nat) list" where
  "old_new_offsets [] old new = []"
| "old_new_offsets (item # items) old new =
     (if item_removed item then old_new_offsets items (old + padded_size item) new
      else (old, new) # old_new_offsets items (old + padded_size item) (new + padded_size item))"

definition sum_sizes :: "Item list \<Rightarrow> nat" where
  "sum_sizes items = sum_list (map padded_size items)"

text \<open>
  The invariant behind the claim on \<open>written\<close>, \<open>committed\<close> and \<open>capacity\<close>, and the states
  reachable through the operations of the class. Arguments are \<^verbatim>\<open>std::size_t\<close> values; a
  request to \<open>reserve_space\<close> or \<open>add_item\<close> is admitted when \<open>m_written + n\<close> does not
  wrap around.
\<close>

definition buffer_inv :: "Buffer \<Rightarrow> bool" where
  "buffer_inv b =
     (m_committed b \<le> m_written b \<and> m_written b \<le> m_capacity b \<and> m_capacity b < 2 ^ 64 \<and>
      (m_memory b \<longrightarrow> m_capacity b mod align_bytes = 0))"


inductive reachable :: "Buffer \<Rightarrow> bool" where
  default_constructed: "reachable Buffer_default"
| external: "sz < 2 ^ 64 \<Longrightarrow> Buffer_external d sz = Inr b \<Longrightarrow> reachable b"
| with_committed:
    "cap < 2 ^ 64 \<Longrightarrow> Buffer_with_committed owned d cap com = Inr b \<Longrightarrow> reachable b"
| new: "reachable (Buffer_new cap ag)"
| move_target: "reachable b \<Longrightarrow> reachable (fst (Buffer_move b))"
| move_source: "reachable b \<Longrightarrow> reachable (snd (Buffer_move b))"
| reserved:
    "reachable b \<Longrightarrow> m_written b + n < 2 ^ 64 \<Longrightarrow>
     reserve_space None n b = Some (Inr (p, b')) \<Longrightarrow> reachable b'"
| item_added:
    "reachable b \<Longrightarrow> m_written b + padded_size item < 2 ^ 64 \<Longrightarrow>
     add_item None item b = Some (Inr (p, b')) \<Longrightarrow> reachable b'"
| committed: "reachable b \<Longrightarrow> reachable (snd (commit b))"
| rolled_back: "reachable b \<Longrightarrow> reachable (rollback b)"
| cleared: "reachable b \<Longrightarrow> reachable (snd (clear b))"
| grown: "reachable b \<Longrightarrow> grow n b = Inr b' \<Longrightarrow> reachable b'"
| grown_internal: "reachable b \<Longrightarrow> grow_internal b = Inr b' \<Longrightarrow> reachable b'"
| purged: "reachable b \<Longrightarrow> committed_items b items \<Longrightarrow> reachable (fst (purge_removed items b))"


text \<open>
  A buffer of three committed records, the second one removed.
\<close>

definition purge_example_items :: "Item list" where
  "purge_example_items =
     [\<lparr>item_data = [1, 0, 0, 0, 0, 0, 0, 0], item_removed = False, item_entity = True\<rparr>,
      \<lparr>item_data = [2, 0, 0, 0, 0, 0, 0, 0], item_removed = True, item_entity = True\<rparr>,
      \<lparr>item_data = [3, 0, 0, 0, 0, 0, 0, 0], item_removed = False, item_entity = True\<rparr>]"

definition purge_example_buffer :: Buffer where
  "purge_example_buffer =
     \<lparr>m_next_buffer = [], m_memory = False,
      m_data = Some ([1, 0, 0, 0, 0, 0, 0, 0] @ [2, 0, 0, 0, 0, 0, 0, 0] @ [3, 0, 0, 0, 0, 0, 0, 0]),
      m_capacity = 24, m_written = 24, m_committed = 24, m_auto_grow = auto_grow_no\<rparr>"

section \<open>Varints (protozero)\<close>

text \<open>
  Modelled from the spec: protozero/varint.hpp is not among the sources. A varint is
  base 128, least significant group first, seven data bits per byte, the top bit set on
  every byte but the last; decoding fails with \<open>end_of_buffer_exception\<close> when the input
  ends inside a varint and with \<open>varint_too_long_exception\<close> when ten bytes have been
  read without a terminator. The value is a \<^verbatim>\<open>uint64_t\<close>; bits shifted beyond 64 are lost.
  The function returns the value and the bytes after the varint (the advanced pointer).
\<close>

definition max_varint_length :: nat where "max_varint_length = 10"

fun decode_varint_loop :: "nat \<Rightarrow> nat \<Rightarrow> 64 word \<Rightarrow> byte list \<Rightarrow> error + 64 word \<times> byte list" where
  "decode_varint_loop count shift val [] = Inl end_of_buffer_exception"
| "decode_varint_loop count shift val (b # bs) =
     (let val' = val OR push_bit shift (ucast (b AND 0x7F))
      in if b AND 0x80 = 0 then Inr (val', bs)
         else if max_varint_length \<le> count + 1 then Inl varint_too_long_exception
         else decode_varint_loop (count + 1) (shift + 7) val' bs)"

definition decode_varint :: "byte list \<Rightarrow> error + 64 word \<times> byte list" where
  "decode_varint data = decode_varint_loop 0 0 0 data"

text \<open>
  Modelled from the spec: \<^verbatim>\<open>(n >> 1) ^ -(n & 1)\<close>, the result read as an \<^verbatim>\<open>int64_t\<close>.
\<close>

definition decode_zigzag64 :: "64 word \<Rightarrow> 64 word" where
  "decode_zigzag64 n = drop_bit 1 n XOR (- (n AND 1))"

definition zvarint :: "byte list \<Rightarrow> error + 64 word \<times> byte list" where
  "zvarint data =
     (case decode_varint data of
        Inl e \<Rightarrow> Inl e
      | Inr (n, rest) \<Rightarrow> Inr (decode_zigzag64 n, rest))"

section \<open>O5mParser (o5m\_input\_format.hpp)\<close>

subsection \<open>Pointers into the dataset and into the reference table\<close>

text \<open>
  The decoding functions of a dataset work on a pointer \<^verbatim>\<open>data\<close> and the end \<^verbatim>\<open>end\<close> of
  the dataset. A pointer into the dataset is the list of bytes from the pointer to
  \<^verbatim>\<open>end\<close>, so \<^verbatim>\<open>data == end\<close> is the empty list. \<^verbatim>\<open>decode_string\<close> may also return a
  pointer into the reference table, which the callers then read with the same code: such
  a pointer is never equal to \<^verbatim>\<open>end\<close>, and reading past the end of the table is
  \<open>out_of_bounds_read\<close>. Where the sources compare pointers with \<^verbatim>\<open><\<close> and \<^verbatim>\<open>>\<close>, the
  model carries the address of the pointer as well: addresses are numbers below \<open>2 ^ 64\<close>,
  and a pointer plus a 64-bit length is taken modulo \<open>2 ^ 64\<close>, as the machine computes it.
\<close>

datatype region = in_dataset | in_table

definition is_end :: "region \<Rightarrow> byte list \<Rightarrow> bool" where
  "is_end r data = (r = in_dataset \<and> data = [])"

definition decode_varint_at :: "region \<Rightarrow> byte list \<Rightarrow> error + 64 word \<times> byte list" where
  "decode_varint_at r data =
     (case decode_varint data of
        Inl e \<Rightarrow> Inl (if r = in_table \<and> e = end_of_buffer_exception then out_of_bounds_read else e)
      | Inr res \<Rightarrow> Inr res)"

text \<open>The C string at a pointer: the bytes before the first zero byte.\<close>

definition cstring :: "byte list \<Rightarrow> byte list" where
  "cstring data = takeWhile (\<lambda>b. b \<noteq> 0) data"

text \<open>
  \<^verbatim>\<open>while (*data++) { if (data == end) throw o5m_error{msg}; }\<close>: returns the pointer
  behind the first zero byte.
\<close>

fun skip_to_null :: "region \<Rightarrow> string \<Rightarrow> byte list \<Rightarrow> error + byte list" where
  "skip_to_null r msg [] = Inl out_of_bounds_read"
| "skip_to_null r msg (b # data) =
     (if b = 0 then Inr data
      else if is_end r data then Inl (o5m_error msg)
      else skip_to_null r msg data)"

text \<open>
  \<^verbatim>\<open>do { if (data == end) throw o5m_error{msg}; } while (*data++);\<close>
\<close>

fun skip_to_null_checked :: "region \<Rightarrow> string \<Rightarrow> byte list \<Rightarrow> error + byte list" where
  "skip_to_null_checked r msg [] =
     (if r = in_dataset then Inl (o5m_error msg) else Inl out_of_bounds_read)"
| "skip_to_null_checked r msg (b # data) =
     (if b = 0 then Inr data else skip_to_null_checked r msg data)"

subsection \<open>Decoded objects\<close>

text \<open>
  Modelled from the spec: the builders, the object classes, \<^verbatim>\<open>Location\<close>, \<^verbatim>\<open>Box\<close>,
  \<^verbatim>\<open>Header\<close>, \<^verbatim>\<open>DeltaDecode\<close> and the integer types of types.hpp are not among the
  sources. An object is a record of what the builder was given: a 64-bit id, a 32-bit
  version, timestamp, changeset, user id and name, the visible flag and the tags; a fresh
  object has zeros, no user name, no tags and is visible. A location is a pair of 32-bit
  coordinates or the invalid location of a deleted node. A delta decoder is its running
  value, a signed 64-bit integer starting at 0: \<open>update\<close> adds the delta and returns the
  sum, \<open>clear\<close> sets it to 0.
\<close>

datatype item_type = item_node | item_way | item_relation

datatype Location = Location_invalid | Location "32 word" "32 word"

record OSMObject =
  obj_id :: "64 word"
  obj_version :: "32 word"
  obj_timestamp :: "64 word"
  obj_changeset :: "64 word"
  obj_uid :: "32 word"
  obj_user :: "byte list"
  obj_visible :: bool
  obj_tags :: "(byte list \<times> byte list) list"

record Node = OSMObject +
  node_location :: Location

record Way = OSMObject +
  way_nodes :: "64 word list"

record Relation = OSMObject +
  relation_members :: "(item_type \<times> 64 word \<times> byte list) list"

datatype osm_entity = Node_entity Node | Way_entity Way | Relation_entity Relation

definition new_node :: Node where
  "new_node = \<lparr>obj_id = 0, obj_version = 0, obj_timestamp = 0, obj_changeset = 0, obj_uid = 0,
               obj_user = [], obj_visible = True, obj_tags = [],
               node_location = Location_invalid\<rparr>"

definition new_way :: Way where
  "new_way = \<lparr>obj_id = 0, obj_version = 0, obj_timestamp = 0, obj_changeset = 0, obj_uid = 0,
              obj_user = [], obj_visible = True, obj_tags = [], way_nodes = []\<rparr>"

definition new_relation :: Relation where
  "new_relation = \<lparr>obj_id = 0, obj_version = 0, obj_timestamp = 0, obj_changeset = 0,
                   obj_uid = 0, obj_user = [], obj_visible = True, obj_tags = [],
                   relation_members = []\<rparr>"

record Header =
  has_multiple_object_versions :: bool
  boxes :: "(Location \<times> Location) list"
  header_options :: "(string \<times> 64 word) list"

definition new_header :: Header where
  "new_header = \<lparr>has_multiple_object_versions = False, boxes = [], header_options = []\<rparr>"

subsection \<open>The parser state\<close>

text \<open>
  Modelled from the spec: the base classes \<^verbatim>\<open>Parser\<close> and \<^verbatim>\<open>ParserWithBuffer\<close> and the
  input queue are not among the sources. The queue hands over the chunks of the input in
  order and then the empty string that marks the end of the data: \<open>input_queue\<close> is the
  list of the chunks still to come (a list that has run out stands for the end marker),
  \<open>input_done\<close> holds once an empty string has been taken, and from then on \<open>get_input\<close>
  returns the empty string. Of the base class the state also keeps what \<^verbatim>\<open>decode_data\<close>
  uses: \<open>read_types\<close> is the entity mask, \<open>header_is_done\<close> and \<open>published_header\<close> say
  whether and which header was published, and \<open>emitted\<close> lists the committed objects in
  order (buffers and their flushing are not modelled here).

  The other fields are the members of \<^verbatim>\<open>O5mParser\<close>. \<open>m_input\<close> is the value of the
  string. The pointers \<^verbatim>\<open>m_data\<close> and \<^verbatim>\<open>m_end\<close> point into the storage of the string:
  \<open>m_input_data\<close> is the address \<^verbatim>\<open>m_input.data()\<close> had when the pointers were last set (a
  number that the allocator chose, which the model leaves as it is), \<open>m_mem\<close> holds the
  bytes that lie in memory from that address up to \<^verbatim>\<open>m_end\<close>, and \<open>m_data\<close> is the offset of
  the pointer \<^verbatim>\<open>m_data\<close> from that address. \<^verbatim>\<open>std::string::erase\<close> moves the characters that
  stay to the front of the storage and writes the terminating zero behind them, leaving
  the bytes behind the terminator as they were; pointers that are not set anew then see
  the moved bytes. \<^verbatim>\<open>std::string::append\<close> may move the storage, so that the memory behind
  pointers that are not set anew is unknown: \<open>m_moved\<close> records this, and a read through
  the pointers is then the error \<open>invalidated_pointer\<close>.
\<close>

record O5mParser =
  m_header :: Header
  input_queue :: "byte list list"
  input_done :: bool
  m_input :: "byte list"
  m_input_data :: nat
  m_mem :: "byte list"
  m_data :: nat
  m_moved :: bool
  m_reference_table :: ReferenceTable
  m_delta_id :: "64 word"
  m_delta_timestamp :: "64 word"
  m_delta_changeset :: "64 word"
  m_delta_lon :: "64 word"
  m_delta_lat :: "64 word"
  m_delta_way_node_id :: "64 word"
  m_delta_member_ids :: "item_type \<Rightarrow> 64 word"
  read_types :: "item_type set"
  header_is_done :: bool
  published_header :: "Header option"
  emitted :: "osm_entity list"

definition m_end :: "O5mParser \<Rightarrow> nat" where
  "m_end p = length (m_mem p)"

text \<open>\<^verbatim>\<open>static_cast<std::size_t>(m_end - m_data)\<close>.\<close>

definition bytes_left :: "O5mParser \<Rightarrow> nat" where
  "bytes_left p = nat ((int (m_end p) - int (m_data p)) mod 2 ^ 64)"

text \<open>The bytes from \<^verbatim>\<open>m_data\<close> to \<^verbatim>\<open>m_end\<close>, for a read through the pointers.\<close>

definition input_view :: "O5mParser \<Rightarrow> error + byte list" where
  "input_view p =
     (if m_moved p then Inl invalidated_pointer else Inr (drop (m_data p) (m_mem p)))"

definition get_input :: "O5mParser \<Rightarrow> byte list \<times> O5mParser" where
  "get_input p =
     (if input_done p then ([], p)
      else (case input_queue p of
              [] \<Rightarrow> ([], p\<lparr>input_done := True\<rparr>)
            | chunk # queue \<Rightarrow> (chunk, p\<lparr>input_queue := queue, input_done := (chunk = [])\<rparr>)))"

text \<open>\<^verbatim>\<open>m_input.erase(0, n)\<close> and \<^verbatim>\<open>m_input.append(data)\<close>.\<close>

definition string_erase :: "nat \<Rightarrow> O5mParser \<Rightarrow> O5mParser" where
  "string_erase n p =
     (let rest = drop n (m_input p)
      in p\<lparr>m_input := rest,
           m_mem := take (length (m_mem p)) (rest @ [0] @ drop (length rest + 1) (m_mem p))\<rparr>)"

definition string_append :: "byte list \<Rightarrow> O5mParser \<Rightarrow> O5mParser" where
  "string_append data p = p\<lparr>m_input := m_input p @ data, m_moved := True\<rparr>"

lemma get_input_shorter:
  "get_input p = (data, p1) \<Longrightarrow> \<not> input_done p1 \<Longrightarrow>
   length (input_queue p1) < length (input_queue p)"
  by (auto simp: get_input_def split: if_splits list.splits)

text \<open>
  \<^verbatim>\<open>ensure_bytes_available\<close>. \<open>refill\<close> is its \<^verbatim>\<open>while\<close> loop together with the two
  assignments behind the loop, which set the pointers anew; when the input ends inside
  the loop the function returns false and leaves the pointers as they were. On a parser
  whose pointers \<^verbatim>\<open>append\<close> has left behind, \<^verbatim>\<open>m_data - m_input.data()\<close> has no meaning.
\<close>

function refill :: "nat \<Rightarrow> O5mParser \<Rightarrow> bool \<times> O5mParser" where
  "refill need_bytes p =
     (if length (m_input p) < need_bytes
      then (case get_input p of
              (data, p1) \<Rightarrow>
                if input_done p1 then (False, p1)
                else refill need_bytes (string_append data p1))
      else (True, p\<lparr>m_mem := m_input p, m_data := 0, m_moved := False\<rparr>))"
  by pat_completeness auto
termination
  by (relation "measure (\<lambda>(need_bytes, p). length (input_queue p))")
     (auto simp: string_append_def dest: get_input_shorter [OF sym])

declare refill.simps [simp del]

definition ensure_bytes_available :: "nat \<Rightarrow> O5mParser \<Rightarrow> error + bool \<times> O5mParser" where
  "ensure_bytes_available need_bytes p =
     (if bytes_left p \<ge> need_bytes then Inr (True, p)
      else if input_done p \<and> length (m_input p) < need_bytes then Inr (False, p)
      else if m_moved p then Inl invalidated_pointer
      else Inr (refill need_bytes (string_erase (m_data p) p)))"

subsection \<open>The file header\<close>

text \<open>
  \<^verbatim>\<open>std::strncmp\<close>: compares at most \<open>n\<close> characters as unsigned bytes and stops behind a
  common zero byte. Both arguments are at least \<open>n\<close> bytes long where the parser calls it;
  the end of a list counts as a zero byte. The result is negative, zero or positive.
\<close>

fun strncmp :: "byte list \<Rightarrow> byte list \<Rightarrow> nat \<Rightarrow> int" where
  "strncmp s1 s2 0 = 0"
| "strncmp s1 s2 (Suc n) =
     (let c1 = (case s1 of [] \<Rightarrow> 0 | c # _ \<Rightarrow> c);
          c2 = (case s2 of [] \<Rightarrow> 0 | c # _ \<Rightarrow> c)
      in if c1 \<noteq> c2 then uint c1 - uint c2
         else if c1 = 0 then 0
         else strncmp (tl s1) (tl s2) n)"

definition header_magic :: "byte list" where
  "header_magic = [0xFF, 0xE0, 0x04, 0x6F, 0x35]"

definition check_header_magic :: "O5mParser \<Rightarrow> error + O5mParser" where
  "check_header_magic p =
     (case input_view p of
        Inl e \<Rightarrow> Inl e
      | Inr data \<Rightarrow>
          if strncmp header_magic data (length header_magic) \<noteq> 0
          then Inl (o5m_error ''wrong header magic'')
          else Inr (p\<lparr>m_data := m_data p + length header_magic\<rparr>))"

definition check_file_type :: "O5mParser \<Rightarrow> error + O5mParser" where
  "check_file_type p =
     (case input_view p of
        Inl e \<Rightarrow> Inl e
      | Inr [] \<Rightarrow> Inl out_of_bounds_read
      | Inr (c # rest) \<Rightarrow>
          if c = 0x6D
          then Inr (p\<lparr>m_header := (m_header p)\<lparr>has_multiple_object_versions := False\<rparr>,
                     m_data := m_data p + 1\<rparr>)
          else if c = 0x63
          then Inr (p\<lparr>m_header := (m_header p)\<lparr>has_multiple_object_versions := True\<rparr>,
                     m_data := m_data p + 1\<rparr>)
          else Inl (o5m_error ''wrong header magic''))"

definition check_file_format_version :: "O5mParser \<Rightarrow> error + O5mParser" where
  "check_file_format_version p =
     (case input_view p of
        Inl e \<Rightarrow> Inl e
      | Inr [] \<Rightarrow> Inl out_of_bounds_read
      | Inr (c # rest) \<Rightarrow>
          if c \<noteq> 0x32 then Inl (o5m_error ''wrong header magic'')
          else Inr (p\<lparr>m_data := m_data p + 1\<rparr>))"

definition decode_header :: "O5mParser \<Rightarrow> error + O5mParser" where
  "decode_header p =
     (case ensure_bytes_available 7 p of
        Inl e \<Rightarrow> Inl e
      | Inr (available, p0) \<Rightarrow>
          if \<not> available
          then Inl (o5m_error ''file too short (incomplete header info)'')
          else (case check_header_magic p0 of
                  Inl e \<Rightarrow> Inl e
                | Inr p1 \<Rightarrow>
                    (case check_file_type p1 of
                       Inl e \<Rightarrow> Inl e
                     | Inr p2 \<Rightarrow> check_file_format_version p2)))"

definition mark_header_as_done :: "O5mParser \<Rightarrow> O5mParser" where
  "mark_header_as_done p =
     (if header_is_done p then p
      else p\<lparr>header_is_done := True, published_header := Some (m_header p)\<rparr>)"

subsection \<open>Reset\<close>

definition reset :: "O5mParser \<Rightarrow> O5mParser" where
  "reset p =
     p\<lparr>m_reference_table := ReferenceTable_clear (m_reference_table p),
       m_delta_id := 0,
       m_delta_timestamp := 0,
       m_delta_changeset := 0,
       m_delta_lon := 0,
       m_delta_lat := 0,
       m_delta_way_node_id := 0,
       m_delta_member_ids := (\<lambda>t. 0)\<rparr>"

subsection \<open>Strings, users, tags, roles\<close>

text \<open>
  \<^verbatim>\<open>decode_string\<close> returns the pointer to the string (with its region) and the new
  value of \<^verbatim>\<open>*dataptr\<close>. The callers never pass \<^verbatim>\<open>*dataptr == end\<close>.
\<close>

definition decode_string ::
  "ReferenceTable \<Rightarrow> byte list \<Rightarrow> error + (region \<times> byte list) \<times> byte list" where
  "decode_string table dataptr =
     (case dataptr of
        [] \<Rightarrow> Inl out_of_bounds_read
      | c # rest \<Rightarrow>
          if c = 0
          then if rest = [] then Inl (o5m_error ''string format error'')
               else Inr ((in_dataset, rest), rest)
          else (case decode_varint dataptr of
                  Inl e \<Rightarrow> Inl e
                | Inr (index, rest') \<Rightarrow>
                    (case ReferenceTable_get (unat index) table of
                       Inl e \<Rightarrow> Inl e
                     | Inr s \<Rightarrow> Inr ((in_table, s), rest'))))"

definition update_pointer :: "byte list \<Rightarrow> bool" where
  "update_pointer dataptr = (case dataptr of [] \<Rightarrow> False | c # _ \<Rightarrow> c = 0)"

text \<open>
  \<^verbatim>\<open>decode_user\<close> returns the user id and name, the new \<^verbatim>\<open>*dataptr\<close> and the new
  table. \<open>take (length start - length data) start\<close> are the bytes from \<^verbatim>\<open>start\<close> up to
  \<^verbatim>\<open>data\<close>.
\<close>

definition decode_user ::
  "ReferenceTable \<Rightarrow> byte list \<Rightarrow> error + (32 word \<times> byte list) \<times> byte list \<times> ReferenceTable" where
  "decode_user table dataptr =
     (case decode_string table dataptr of
        Inl e \<Rightarrow> Inl e
      | Inr ((r, start), dataptr1) \<Rightarrow>
          (case decode_varint_at r start of
             Inl e \<Rightarrow> Inl e
           | Inr (uid, data) \<Rightarrow>
               if uid > 0xFFFFFFFF then Inl (o5m_error ''uid out of range'')
               else if is_end r data then Inl (o5m_error ''missing user name'')
               else let user = drop 1 data
                    in if uid = 0 \<and> update_pointer dataptr
                       then Inr ((0, []), user, ReferenceTable_add [0, 0] table)
                       else (case skip_to_null_checked r ''no null byte in user name'' user of
                               Inl e \<Rightarrow> Inl e
                             | Inr data' \<Rightarrow>
                                 if update_pointer dataptr
                                 then Inr ((ucast uid, cstring user), data',
                                           ReferenceTable_add
                                             (take (length start - length data') start) table)
                                 else Inr ((ucast uid, cstring user), dataptr1, table))))"

text \<open>One round of the loop of \<^verbatim>\<open>decode_tags\<close>, and the loop.\<close>

definition decode_tag ::
  "ReferenceTable \<Rightarrow> byte list
     \<Rightarrow> error + (byte list \<times> byte list) \<times> byte list \<times> ReferenceTable" where
  "decode_tag table dataptr =
     (case decode_string table dataptr of
        Inl e \<Rightarrow> Inl e
      | Inr ((r, start), dataptr1) \<Rightarrow>
          (case skip_to_null r ''no null byte in tag key'' start of
             Inl e \<Rightarrow> Inl e
           | Inr val \<Rightarrow>
               if is_end r val then Inl (o5m_error ''no null byte in tag value'')
               else (case skip_to_null r ''no null byte in tag value'' val of
                       Inl e \<Rightarrow> Inl e
                     | Inr data \<Rightarrow>
                         if update_pointer dataptr
                         then Inr ((cstring start, cstring val), data,
                                   ReferenceTable_add (take (length start - length data) start) table)
                         else Inr ((cstring start, cstring val), dataptr1, table))))"

text \<open>Every successful step of the decoders moves the pointer forward.\<close>

lemma decode_varint_loop_shorter:
  "decode_varint_loop count shift val data = Inr (v, rest) \<Longrightarrow> length rest < length data"
proof (induction data arbitrary: count shift val)
  case Nil
  then show ?case by simp
next
  case (Cons b data)
  then show ?case by (fastforce simp: Let_def split: if_splits)
qed

lemma decode_varint_shorter:
  "decode_varint data = Inr (v, rest) \<Longrightarrow> length rest < length data"
  unfolding decode_varint_def by (rule decode_varint_loop_shorter)

lemma zvarint_shorter: "zvarint data = Inr (v, rest) \<Longrightarrow> length rest < length data"
  by (auto simp: zvarint_def split: sum.splits dest: decode_varint_shorter)

lemma skip_to_null_shorter:
  "skip_to_null r msg data = Inr rest \<Longrightarrow> length rest < length data"
  by (induction data) (auto split: if_splits)

lemma skip_to_null_checked_shorter:
  "skip_to_null_checked r msg data = Inr rest \<Longrightarrow> length rest < length data"
  by (induction data) (auto split: if_splits)

lemma decode_string_shorter:
  "decode_string table dataptr = Inr ((r, start), rest) \<Longrightarrow> length rest < length dataptr"
  by (auto simp: decode_string_def split: list.splits if_splits sum.splits
      dest: decode_varint_shorter)

lemma decode_string_in_dataset:
  "decode_string table dataptr = Inr ((in_dataset, start), rest) \<Longrightarrow> start = rest"
  by (auto simp: decode_string_def split: list.splits if_splits sum.splits)

lemma decode_tag_shorter:
  assumes "decode_tag table dataptr = Inr (kv, rest, table')"
  shows "length rest < length dataptr"
proof -
  obtain r start dataptr1 where s: "decode_string table dataptr = Inr ((r, start), dataptr1)"
    using assms by (auto simp: decode_tag_def split: sum.splits)
  obtain val where v: "skip_to_null r ''no null byte in tag key'' start = Inr val"
    using assms s by (auto simp: decode_tag_def split: sum.splits)
  obtain data where d: "skip_to_null r ''no null byte in tag value'' val = Inr data"
    using assms s v by (auto simp: decode_tag_def split: sum.splits if_splits)
  have rest: "rest = (if update_pointer dataptr then data else dataptr1)"
    using assms s v d by (auto simp: decode_tag_def split: sum.splits if_splits)
  show ?thesis
  proof (cases "update_pointer dataptr")
    case False
    then show ?thesis using rest decode_string_shorter [OF s] by simp
  next
    case True
    then have "r = in_dataset" "start = dataptr1"
      using s by (auto simp: decode_string_def update_pointer_def split: list.splits if_splits)
    then show ?thesis
      using True rest decode_string_shorter [OF s] skip_to_null_shorter [OF v]
        skip_to_null_shorter [OF d] by simp
  qed
qed

function decode_tags ::
  "ReferenceTable \<Rightarrow> byte list \<Rightarrow> error + (byte list \<times> byte list) list \<times> ReferenceTable" where
  "decode_tags table dataptr =
     (if dataptr = [] then Inr ([], table)
      else (case decode_tag table dataptr of
              Inl e \<Rightarrow> Inl e
            | Inr (kv, dataptr', table') \<Rightarrow>
                (case decode_tags table' dataptr' of
                   Inl e \<Rightarrow> Inl e
                 | Inr (tags, table'') \<Rightarrow> Inr (kv # tags, table''))))"
  by pat_completeness auto
termination
  by (relation "measure (\<lambda>(table, dataptr). length dataptr)") (auto dest: decode_tag_shorter)

declare decode_tags.simps [simp del]

text \<open>\<^verbatim>\<open>decode_member_type\<close> and \<^verbatim>\<open>decode_role\<close>.\<close>

definition decode_member_type :: "byte \<Rightarrow> error + item_type" where
  "decode_member_type c =
     (if c < 0x30 \<or> c > 0x32 then Inl (o5m_error ''unknown member type'')
      else Inr (if c = 0x30 then item_node else if c = 0x31 then item_way else item_relation))"

definition decode_role ::
  "ReferenceTable \<Rightarrow> byte list
     \<Rightarrow> error + (item_type \<times> byte list) \<times> byte list \<times> ReferenceTable" where
  "decode_role table dataptr =
     (case decode_string table dataptr of
        Inl e \<Rightarrow> Inl e
      | Inr ((r, start), dataptr1) \<Rightarrow>
          (case start of
             [] \<Rightarrow> Inl out_of_bounds_read
           | c # role \<Rightarrow>
               (case decode_member_type c of
                  Inl e \<Rightarrow> Inl e
                | Inr member_type \<Rightarrow>
                    if is_end r role then Inl (o5m_error ''missing role'')
                    else (case skip_to_null r ''no null byte in role'' role of
                            Inl e \<Rightarrow> Inl e
                          | Inr data \<Rightarrow>
                              if update_pointer dataptr
                              then Inr ((member_type, cstring role), data,
                                        ReferenceTable_add
                                          (take (length start - length data) start) table)
                              else Inr ((member_type, cstring role), dataptr1, table)))))"

lemma decode_role_shorter:
  assumes "decode_role table dataptr = Inr (tr, rest, table')"
  shows "length rest < length dataptr"
proof -
  obtain r start dataptr1 where s: "decode_string table dataptr = Inr ((r, start), dataptr1)"
    using assms by (auto simp: decode_role_def split: sum.splits)
  obtain c role where c: "start = c # role"
    using assms s by (cases start) (auto simp: decode_role_def)
  obtain data where d: "skip_to_null r ''no null byte in role'' role = Inr data"
    using assms s c by (auto simp: decode_role_def split: sum.splits if_splits)
  have rest: "rest = (if update_pointer dataptr then data else dataptr1)"
    using assms s c d by (auto simp: decode_role_def split: sum.splits if_splits)
  show ?thesis
  proof (cases "update_pointer dataptr")
    case False
    then show ?thesis using rest decode_string_shorter [OF s] by simp
  next
    case True
    then have "r = in_dataset" "start = dataptr1"
      using s by (auto simp: decode_string_def update_pointer_def split: list.splits if_splits)
    moreover have "length start = Suc (length role)" using c by simp
    ultimately show ?thesis
      using True rest decode_string_shorter [OF s] skip_to_null_shorter [OF d] by simp
  qed
qed

subsection \<open>Object metadata\<close>

text \<open>
  \<^verbatim>\<open>decode_info\<close> fills the metadata of the object under construction and returns the
  user name; the model returns the parser state, the object, the user name and the new
  \<^verbatim>\<open>*dataptr\<close>.
\<close>

definition decode_info ::
  "O5mParser \<Rightarrow> 'a OSMObject_scheme \<Rightarrow> byte list
     \<Rightarrow> error + O5mParser \<times> 'a OSMObject_scheme \<times> byte list \<times> byte list" where
  "decode_info p object dataptr =
     (case dataptr of
        [] \<Rightarrow> Inl (o5m_error ''premature end of file while parsing object metadata'')
      | c # rest \<Rightarrow>
          if c = 0 then Inr (p, object, [], rest)
          else
            (case decode_varint dataptr of
               Inl e \<Rightarrow> Inl e
             | Inr (version, dataptr1) \<Rightarrow>
                 if version > 0xFFFFFFFF then Inl (o5m_error ''object version too large'')
                 else
                   (case zvarint dataptr1 of
                      Inl e \<Rightarrow> Inl e
                    | Inr (dt, dataptr2) \<Rightarrow>
                        (let object1 = object\<lparr>obj_version := ucast version\<rparr>;
                             timestamp = m_delta_timestamp p + dt;
                             p1 = p\<lparr>m_delta_timestamp := timestamp\<rparr>
                         in if timestamp \<noteq> 0
                            then
                              (case zvarint dataptr2 of
                                 Inl e \<Rightarrow> Inl e
                               | Inr (dc, dataptr3) \<Rightarrow>
                                   (let changeset = m_delta_changeset p1 + dc;
                                        p2 = p1\<lparr>m_delta_changeset := changeset\<rparr>;
                                        object2 = object1\<lparr>obj_timestamp := timestamp,
                                                          obj_changeset := changeset\<rparr>
                                    in if dataptr3 \<noteq> []
                                       then
                                         (case decode_user (m_reference_table p2) dataptr3 of
                                            Inl e \<Rightarrow> Inl e
                                          | Inr ((uid, user), dataptr4, table) \<Rightarrow>
                                              Inr (p2\<lparr>m_reference_table := table\<rparr>,
                                                   object2\<lparr>obj_uid := uid\<rparr>, user, dataptr4))
                                       else Inr (p2, object2\<lparr>obj_uid := 0\<rparr>, [], dataptr3)))
                            else Inr (p1, object1, [], dataptr2)))))"

subsection \<open>Nodes, ways, relations\<close>

text \<open>
  The tail of the three decoders: \<^verbatim>\<open>if (data != end) { decode_tags(builder, &data, end); }\<close>.
\<close>

definition decode_tags_if_any ::
  "ReferenceTable \<Rightarrow> byte list \<Rightarrow> error + (byte list \<times> byte list) list \<times> ReferenceTable" where
  "decode_tags_if_any table data =
     (if data \<noteq> [] then decode_tags table data else Inr ([], table))"

definition decode_node :: "O5mParser \<Rightarrow> byte list \<Rightarrow> error + O5mParser \<times> Node" where
  "decode_node p data =
     (case zvarint data of
        Inl e \<Rightarrow> Inl e
      | Inr (d, data1) \<Rightarrow>
          (let p1 = p\<lparr>m_delta_id := m_delta_id p + d\<rparr>
           in (case decode_info p1 (new_node\<lparr>obj_id := m_delta_id p1\<rparr>) data1 of
                 Inl e \<Rightarrow> Inl e
               | Inr (p2, object, user, data2) \<Rightarrow>
                   (let node = object\<lparr>obj_user := user\<rparr>
                    in if data2 = []
                       then Inr (p2, node\<lparr>obj_visible := False, node_location := Location_invalid\<rparr>)
                       else
                         (case zvarint data2 of
                            Inl e \<Rightarrow> Inl e
                          | Inr (dlon, data3) \<Rightarrow>
                              (case zvarint data3 of
                                 Inl e \<Rightarrow> Inl e
                               | Inr (dlat, data4) \<Rightarrow>
                                   (let p3 = p2\<lparr>m_delta_lon := m_delta_lon p2 + dlon\<rparr>;
                                        p4 = p3\<lparr>m_delta_lat := m_delta_lat p3 + dlat\<rparr>;
                                        node1 = node\<lparr>node_location :=
                                                  Location (ucast (m_delta_lon p4)) (ucast (m_delta_lat p4))\<rparr>
                                    in (case decode_tags_if_any (m_reference_table p4) data4 of
                                          Inl e \<Rightarrow> Inl e
                                        | Inr (tags, table) \<Rightarrow>
                                            Inr (p4\<lparr>m_reference_table := table\<rparr>,
                                                 node1\<lparr>obj_tags := tags\<rparr>)))))))))"

text \<open>
  The loop over the node references of a way: \<open>addr\<close> is the address of \<^verbatim>\<open>data\<close> and
  \<open>end_refs\<close> the address \<^verbatim>\<open>end_refs\<close>.
\<close>

function decode_way_refs ::
  "nat \<Rightarrow> nat \<Rightarrow> 64 word \<Rightarrow> byte list \<Rightarrow> error + 64 word list \<times> 64 word \<times> byte list" where
  "decode_way_refs end_refs addr delta data =
     (if addr < end_refs
      then (case zvarint data of
              Inl e \<Rightarrow> Inl e
            | Inr (d, data') \<Rightarrow>
                (case decode_way_refs end_refs (addr + (length data - length data'))
                        (delta + d) data' of
                   Inl e \<Rightarrow> Inl e
                 | Inr (refs, delta', rest) \<Rightarrow> Inr ((delta + d) # refs, delta', rest)))
      else Inr ([], delta, data))"
  by pat_completeness auto
termination
  by (relation "measure (\<lambda>(end_refs, addr, delta, data). length data)")
     (auto dest: zvarint_shorter)

declare decode_way_refs.simps [simp del]

text \<open>
  \<^verbatim>\<open>decode_way\<close>; \<open>addr\<close> is the address of \<^verbatim>\<open>data\<close> on entry, so that \<^verbatim>\<open>end\<close> has the
  address \<open>addr + length data\<close>.
\<close>

definition decode_way :: "O5mParser \<Rightarrow> nat \<Rightarrow> byte list \<Rightarrow> error + O5mParser \<times> Way" where
  "decode_way p addr data =
     (case zvarint data of
        Inl e \<Rightarrow> Inl e
      | Inr (d, data1) \<Rightarrow>
          (let p1 = p\<lparr>m_delta_id := m_delta_id p + d\<rparr>
           in (case decode_info p1 (new_way\<lparr>obj_id := m_delta_id p1\<rparr>) data1 of
                 Inl e \<Rightarrow> Inl e
               | Inr (p2, object, user, data2) \<Rightarrow>
                   (let way = object\<lparr>obj_user := user\<rparr>
                    in if data2 = [] then Inr (p2, way\<lparr>obj_visible := False\<rparr>)
                       else
                         (case decode_varint data2 of
                            Inl e \<Rightarrow> Inl e
                          | Inr (reference_section_length, data3) \<Rightarrow>
                              (case (if reference_section_length > 0
                                     then (let addr3 = addr + (length data - length data3);
                                               end_refs = (addr3 + unat reference_section_length)
                                                            mod 2 ^ 64
                                           in if end_refs > addr + length data
                                              then Inl (o5m_error ''way nodes ref section too long'')
                                              else decode_way_refs end_refs addr3
                                                     (m_delta_way_node_id p2) data3)
                                     else Inr ([], m_delta_way_node_id p2, data3)) of
                                 Inl e \<Rightarrow> Inl e
                               | Inr (refs, delta, data4) \<Rightarrow>
                                   (let p3 = p2\<lparr>m_delta_way_node_id := delta\<rparr>;
                                        way1 = way\<lparr>way_nodes := refs\<rparr>
                                    in (case decode_tags_if_any (m_reference_table p3) data4 of
                                          Inl e \<Rightarrow> Inl e
                                        | Inr (tags, table) \<Rightarrow>
                                            Inr (p3\<lparr>m_reference_table := table\<rparr>,
                                                 way1\<lparr>obj_tags := tags\<rparr>)))))))))"

text \<open>The loop over the members of a relation, with the same addresses.\<close>

function decode_members ::
  "nat \<Rightarrow> nat \<Rightarrow> (item_type \<Rightarrow> 64 word) \<Rightarrow> ReferenceTable \<Rightarrow> byte list
     \<Rightarrow> error + (item_type \<times> 64 word \<times> byte list) list \<times> (item_type \<Rightarrow> 64 word)
           \<times> ReferenceTable \<times> byte list" where
  "decode_members end_refs addr deltas table data =
     (if addr < end_refs
      then (case zvarint data of
              Inl e \<Rightarrow> Inl e
            | Inr (delta_id, data1) \<Rightarrow>
                if data1 = [] then Inl (o5m_error ''relation member format error'')
                else (case decode_role table data1 of
                        Inl e \<Rightarrow> Inl e
                      | Inr ((t, role), data2, table') \<Rightarrow>
                          (case decode_members end_refs (addr + (length data - length data2))
                                  (deltas(t := deltas t + delta_id)) table' data2 of
                             Inl e \<Rightarrow> Inl e
                           | Inr (members, deltas', table'', rest) \<Rightarrow>
                               Inr ((t, deltas t + delta_id, role) # members, deltas', table'',
                                    rest))))
      else Inr ([], deltas, table, data))"
  by pat_completeness auto
termination
proof (relation "measure (\<lambda>(end_refs, addr, deltas, table, data). length data)")
  show "wf (measure (\<lambda>(end_refs, addr, deltas, table, data). length data))" by simp
next
  fix end_refs addr :: nat and deltas :: "item_type \<Rightarrow> 64 word" and table data x2 delta_id data1
    and x2a tr y t role data2 table'
  assume "zvarint data = Inr x2" "(delta_id, data1) = x2"
    "decode_role table data1 = Inr x2a" "(tr, y) = x2a" "(t, role) = tr" "(data2, table') = y"
  then have "length data1 < length data" "length data2 < length data1"
    by (auto dest: zvarint_shorter decode_role_shorter)
  then show "((end_refs, addr + (length data - length data2), deltas(t := deltas t + delta_id),
               table', data2), end_refs, addr, deltas, table, data)
          \<in> measure (\<lambda>(end_refs, addr, deltas, table, data). length data)"
    by simp
qed

declare decode_members.simps [simp del]

definition decode_relation ::
  "O5mParser \<Rightarrow> nat \<Rightarrow> byte list \<Rightarrow> error + O5mParser \<times> Relation" where
  "decode_relation p addr data =
     (case zvarint data of
        Inl e \<Rightarrow> Inl e
      | Inr (d, data1) \<Rightarrow>
          (let p1 = p\<lparr>m_delta_id := m_delta_id p + d\<rparr>
           in (case decode_info p1 (new_relation\<lparr>obj_id := m_delta_id p1\<rparr>) data1 of
                 Inl e \<Rightarrow> Inl e
               | Inr (p2, object, user, data2) \<Rightarrow>
                   (let relation = object\<lparr>obj_user := user\<rparr>
                    in if data2 = [] then Inr (p2, relation\<lparr>obj_visible := False\<rparr>)
                       else
                         (case decode_varint data2 of
                            Inl e \<Rightarrow> Inl e
                          | Inr (reference_section_length, data3) \<Rightarrow>
                              (case (if reference_section_length > 0
                                     then (let addr3 = addr + (length data - length data3);
                                               end_refs = (addr3 + unat reference_section_length)
                                                            mod 2 ^ 64
                                           in if end_refs > addr + length data
                                              then Inl (o5m_error ''relation format error'')
                                              else decode_members end_refs addr3
                                                     (m_delta_member_ids p2)
                                                     (m_reference_table p2) data3)
                                     else Inr ([], m_delta_member_ids p2, m_reference_table p2, data3)) of
                                 Inl e \<Rightarrow> Inl e
                               | Inr (members, deltas, table, data4) \<Rightarrow>
                                   (let p3 = p2\<lparr>m_delta_member_ids := deltas,
                                               m_reference_table := table\<rparr>;
                                        relation1 = relation\<lparr>relation_members := members\<rparr>
                                    in (case decode_tags_if_any (m_reference_table p3) data4 of
                                          Inl e \<Rightarrow> Inl e
                                        | Inr (tags, table') \<Rightarrow>
                                            Inr (p3\<lparr>m_reference_table := table'\<rparr>,
                                                 relation1\<lparr>obj_tags := tags\<rparr>)))))))))"

subsection \<open>Bounding box and timestamp\<close>

text \<open>
  Modelled from the spec: \<^verbatim>\<open>Header::add_box\<close> appends a box, \<^verbatim>\<open>Header::set\<close> stores a
  value under a key. The timestamp is stored as the decoded number of seconds; its ISO
  formatting (\<^verbatim>\<open>Timestamp::to_iso\<close>) is not modelled.
\<close>

definition header_set :: "string \<Rightarrow> 64 word \<Rightarrow> Header \<Rightarrow> Header" where
  "header_set key v h =
     h\<lparr>header_options := (key, v) # filter (\<lambda>(k, _). k \<noteq> key) (header_options h)\<rparr>"

definition decode_bbox :: "O5mParser \<Rightarrow> byte list \<Rightarrow> error + O5mParser" where
  "decode_bbox p data =
     (case zvarint data of
        Inl e \<Rightarrow> Inl e
      | Inr (sw_lon, data1) \<Rightarrow>
          (case zvarint data1 of
             Inl e \<Rightarrow> Inl e
           | Inr (sw_lat, data2) \<Rightarrow>
               (case zvarint data2 of
                  Inl e \<Rightarrow> Inl e
                | Inr (ne_lon, data3) \<Rightarrow>
                    (case zvarint data3 of
                       Inl e \<Rightarrow> Inl e
                     | Inr (ne_lat, data4) \<Rightarrow>
                         Inr (p\<lparr>m_header := (m_header p)\<lparr>boxes := boxes (m_header p) @
                                  [(Location (ucast sw_lon) (ucast sw_lat),
                                    Location (ucast ne_lon) (ucast ne_lat))]\<rparr>\<rparr>)))))"

definition decode_timestamp :: "O5mParser \<Rightarrow> byte list \<Rightarrow> error + O5mParser" where
  "decode_timestamp p data =
     (case zvarint data of
        Inl e \<Rightarrow> Inl e
      | Inr (timestamp, data1) \<Rightarrow>
          Inr (p\<lparr>m_header := header_set ''timestamp'' timestamp
                               (header_set ''o5m_timestamp'' timestamp (m_header p))\<rparr>))"

subsection \<open>The dataset loop\<close>

text \<open>The values of \<^verbatim>\<open>enum class dataset_type\<close>.\<close>

definition dataset_node :: byte where "dataset_node = 0x10"
definition dataset_way :: byte where "dataset_way = 0x11"
definition dataset_relation :: byte where "dataset_relation = 0x12"
definition dataset_bounding_box :: byte where "dataset_bounding_box = 0xDB"
definition dataset_timestamp :: byte where "dataset_timestamp = 0xDC"
definition dataset_header :: byte where "dataset_header = 0xE0"
definition dataset_sync :: byte where "dataset_sync = 0xEE"
definition dataset_jump :: byte where "dataset_jump = 0xEF"
definition dataset_reset :: byte where "dataset_reset = 0xFF"

text \<open>
  The bytes from \<^verbatim>\<open>m_data\<close> to \<^verbatim>\<open>m_data + length\<close>, which the decoders of a dataset are
  given (bytes behind \<^verbatim>\<open>m_end\<close> are not known), and the \<^verbatim>\<open>switch\<close> of \<^verbatim>\<open>decode_data\<close>. A decoded object is committed to the
  buffer, here appended to \<open>emitted\<close>.
\<close>

definition dataset_payload :: "O5mParser \<Rightarrow> nat \<Rightarrow> error + byte list" where
  "dataset_payload p len =
     (case input_view p of
        Inl e \<Rightarrow> Inl e
      | Inr data \<Rightarrow> if length data < len then Inl out_of_bounds_read else Inr (take len data))"

definition decode_payload :: "byte \<Rightarrow> O5mParser \<Rightarrow> nat \<Rightarrow> error + O5mParser" where
  "decode_payload ds_type p len =
     (if ds_type = dataset_node
      then (let p1 = mark_header_as_done p
            in if item_node \<in> read_types p1
               then (case dataset_payload p1 len of
                       Inl e \<Rightarrow> Inl e
                     | Inr payload \<Rightarrow>
                         (case decode_node p1 payload of
                            Inl e \<Rightarrow> Inl e
                          | Inr (p2, node) \<Rightarrow>
                              Inr (p2\<lparr>emitted := emitted p2 @ [Node_entity node]\<rparr>)))
               else Inr p1)
      else if ds_type = dataset_way
      then (let p1 = mark_header_as_done p
            in if item_way \<in> read_types p1
               then (case dataset_payload p1 len of
                       Inl e \<Rightarrow> Inl e
                     | Inr payload \<Rightarrow>
                         (case decode_way p1 (m_input_data p1 + m_data p1) payload of
                            Inl e \<Rightarrow> Inl e
                          | Inr (p2, way) \<Rightarrow>
                              Inr (p2\<lparr>emitted := emitted p2 @ [Way_entity way]\<rparr>)))
               else Inr p1)
      else if ds_type = dataset_relation
      then (let p1 = mark_header_as_done p
            in if item_relation \<in> read_types p1
               then (case dataset_payload p1 len of
                       Inl e \<Rightarrow> Inl e
                     | Inr payload \<Rightarrow>
                         (case decode_relation p1 (m_input_data p1 + m_data p1) payload of
                            Inl e \<Rightarrow> Inl e
                          | Inr (p2, relation) \<Rightarrow>
                              Inr (p2\<lparr>emitted := emitted p2 @ [Relation_entity relation]\<rparr>)))
               else Inr p1)
      else if ds_type = dataset_bounding_box
      then (case dataset_payload p len of
              Inl e \<Rightarrow> Inl e
            | Inr payload \<Rightarrow> decode_bbox p payload)
      else if ds_type = dataset_timestamp
      then (case dataset_payload p len of
              Inl e \<Rightarrow> Inl e
            | Inr payload \<Rightarrow> decode_timestamp p payload)
      else Inr p)"

text \<open>
  One round of the \<^verbatim>\<open>while\<close> loop of \<^verbatim>\<open>decode_data\<close>, entered when
  \<^verbatim>\<open>ensure_bytes_available(1)\<close> has returned true: the parser either goes on with the next
  round or leaves the loop through \<^verbatim>\<open>break\<close>. The result of
  \<^verbatim>\<open>ensure_bytes_available(protozero::max_varint_length)\<close> is not looked at, and the length
  is read through the pointers as that call has left them.
\<close>

datatype loop_control = continue_loop O5mParser | break_loop O5mParser

definition decode_dataset :: "O5mParser \<Rightarrow> error + loop_control" where
  "decode_dataset p =
     (case input_view p of
        Inl e \<Rightarrow> Inl e
      | Inr [] \<Rightarrow> Inl out_of_bounds_read
      | Inr (ds_type # _) \<Rightarrow>
          (let p1 = p\<lparr>m_data := m_data p + 1\<rparr>
           in if ds_type > dataset_jump
              then Inr (continue_loop (if ds_type = dataset_reset then reset p1 else p1))
              else
                (case ensure_bytes_available max_varint_length p1 of
                   Inl e \<Rightarrow> Inl e
                 | Inr (_, p2) \<Rightarrow>
                     (case input_view p2 of
                        Inl e \<Rightarrow> Inl e
                      | Inr data \<Rightarrow>
                          (case decode_varint data of
                             Inl e \<Rightarrow>
                               Inl (if e = end_of_buffer_exception
                                    then o5m_error ''premature end of file'' else e)
                           | Inr (len, rest) \<Rightarrow>
                               (let p3 = p2\<lparr>m_data := m_data p2 + (length data - length rest)\<rparr>
                                in (case ensure_bytes_available (unat len) p3 of
                                      Inl e \<Rightarrow> Inl e
                                    | Inr (available, p4) \<Rightarrow>
                                        if \<not> available
                                        then Inl (o5m_error ''premature end of file'')
                                        else
                                          (case decode_payload ds_type p4 (unat len) of
                                             Inl e \<Rightarrow> Inl e
                                           | Inr p5 \<Rightarrow>
                                               if read_types p5 = {} \<and> header_is_done p5
                                               then Inr (break_loop p5)
                                               else Inr (continue_loop
                                                      (p5\<lparr>m_data := m_data p5 + unat len\<rparr>))))))))))"

text \<open>
  The loop of \<^verbatim>\<open>decode_data\<close>, then \<^verbatim>\<open>decode_data\<close> and \<^verbatim>\<open>run\<close>; flushing the last buffer
  is not modelled. The result \<open>None\<close> stands for a loop that does not end.
\<close>

partial_function (option) decode_data_loop :: "O5mParser \<Rightarrow> (error + O5mParser) option" where
  "decode_data_loop p =
     (case ensure_bytes_available 1 p of
        Inl e \<Rightarrow> Some (Inl e)
      | Inr (available, p0) \<Rightarrow>
          if \<not> available then Some (Inr p0)
          else (case decode_dataset p0 of
                  Inl e \<Rightarrow> Some (Inl e)
                | Inr (continue_loop p') \<Rightarrow> decode_data_loop p'
                | Inr (break_loop p') \<Rightarrow> Some (Inr p')))"

definition decode_data :: "O5mParser \<Rightarrow> (error + O5mParser) option" where
  "decode_data p =
     (case decode_data_loop p of
        None \<Rightarrow> None
      | Some (Inl e) \<Rightarrow> Some (Inl e)
      | Some (Inr p') \<Rightarrow> Some (Inr (mark_header_as_done p')))"

definition run :: "O5mParser \<Rightarrow> (error + O5mParser) option" where
  "run p =
     (case decode_header p of
        Inl e \<Rightarrow> Some (Inl e)
      | Inr p1 \<Rightarrow> decode_data p1)"

text \<open>
  A parser as constructed, before any input is read: the string is empty, both pointers
  stand at its start, and the queue holds the chunks of the input.
\<close>

definition new_parser :: "nat \<Rightarrow> byte list list \<Rightarrow> item_type set \<Rightarrow> O5mParser" where
  "new_parser addr chunks types =
     \<lparr>m_header = new_header, input_queue = chunks, input_done = False, m_input = [],
      m_input_data = addr, m_mem = [], m_data = 0, m_moved = False,
      m_reference_table = ReferenceTable_init,
      m_delta_id = 0, m_delta_timestamp = 0, m_delta_changeset = 0, m_delta_lon = 0,
      m_delta_lat = 0, m_delta_way_node_id = 0, m_delta_member_ids = (\<lambda>t. 0),
      read_types = types, header_is_done = False, published_header = None, emitted = []\<rparr>"

subsection \<open>Metadata sections and tag lists as the specification words them\<close>

text \<open>
  The layout of a user block, a metadata section and a tag list, written after the
  specification rather than after the code, to state what the decoders of a node make of
  them. An interned string is either inline, a zero byte followed by the raw bytes with
  their terminators, which are then registered in the reference table, or a varint that
  refers back to an entry of the table.

  A user block is the interned string \<open>uid 00 name 00\<close>, the uid a varint; inline with uid
  0 and an empty name it is the anonymous user, for which the two zero bytes are
  registered.
\<close>

inductive spec_user_block ::
  "ReferenceTable \<Rightarrow> byte list \<Rightarrow> 32 word \<times> byte list \<Rightarrow> byte list \<Rightarrow> ReferenceTable \<Rightarrow> bool" where
  anonymous:
    "spec_user_block table (0 # 0 # 0 # rest) (0, []) rest (ReferenceTable_add [0, 0] table)"
| inline:
    "decode_varint start = Inr (uid, 0 # name @ 0 # rest) \<Longrightarrow> uid \<noteq> 0 \<Longrightarrow> uid \<le> 0xFFFFFFFF \<Longrightarrow>
     0 \<notin> set name \<Longrightarrow>
     spec_user_block table (0 # start) (ucast uid, name) rest
       (ReferenceTable_add (take (length start - length rest) start) table)"
| reference:
    "b \<noteq> 0 \<Longrightarrow> decode_varint (b # bs) = Inr (index, rest) \<Longrightarrow>
     ReferenceTable_get (unat index) table = Inr entry \<Longrightarrow>
     decode_varint entry = Inr (uid, 0 # name @ 0 # junk) \<Longrightarrow> uid \<le> 0xFFFFFFFF \<Longrightarrow>
     0 \<notin> set name \<Longrightarrow>
     spec_user_block table (b # bs) (ucast uid, name) rest table"

text \<open>
  A metadata section: a leading zero byte stands for no metadata. Otherwise a version
  and a zig-zag timestamp delta come first; if the accumulated timestamp is zero nothing
  follows, else a zig-zag changeset delta follows and, unless the payload is exhausted, a
  user block. The relation gives the values of the section, the rest of the payload and
  the parser with its timestamp and changeset decoders and its reference table updated.
\<close>

record metadata =
  md_version :: "32 word"
  md_timestamp :: "64 word"
  md_changeset :: "64 word"
  md_uid :: "32 word"
  md_user :: "byte list"

inductive spec_metadata ::
  "O5mParser \<Rightarrow> byte list \<Rightarrow> metadata \<Rightarrow> byte list \<Rightarrow> O5mParser \<Rightarrow> bool" where
  no_metadata:
    "spec_metadata p (0 # rest)
       \<lparr>md_version = 0, md_timestamp = 0, md_changeset = 0, md_uid = 0, md_user = []\<rparr> rest p"
| version_only:
    "b \<noteq> 0 \<Longrightarrow> decode_varint (b # bs) = Inr (version, data1) \<Longrightarrow> version \<le> 0xFFFFFFFF \<Longrightarrow>
     zvarint data1 = Inr (dt, rest) \<Longrightarrow> m_delta_timestamp p + dt = 0 \<Longrightarrow>
     spec_metadata p (b # bs)
       \<lparr>md_version = ucast version, md_timestamp = 0, md_changeset = 0, md_uid = 0,
        md_user = []\<rparr>
       rest (p\<lparr>m_delta_timestamp := 0\<rparr>)"
| no_author:
    "b \<noteq> 0 \<Longrightarrow> decode_varint (b # bs) = Inr (version, data1) \<Longrightarrow> version \<le> 0xFFFFFFFF \<Longrightarrow>
     zvarint data1 = Inr (dt, data2) \<Longrightarrow> m_delta_timestamp p + dt \<noteq> 0 \<Longrightarrow>
     zvarint data2 = Inr (dc, []) \<Longrightarrow>
     spec_metadata p (b # bs)
       \<lparr>md_version = ucast version, md_timestamp = m_delta_timestamp p + dt,
        md_changeset = m_delta_changeset p + dc, md_uid = 0, md_user = []\<rparr>
       [] (p\<lparr>m_delta_timestamp := m_delta_timestamp p + dt,
              m_delta_changeset := m_delta_changeset p + dc\<rparr>)"
| author:
    "b \<noteq> 0 \<Longrightarrow> decode_varint (b # bs) = Inr (version, data1) \<Longrightarrow> version \<le> 0xFFFFFFFF \<Longrightarrow>
     zvarint data1 = Inr (dt, data2) \<Longrightarrow> m_delta_timestamp p + dt \<noteq> 0 \<Longrightarrow>
     zvarint data2 = Inr (dc, data3) \<Longrightarrow> data3 \<noteq> [] \<Longrightarrow>
     spec_user_block (m_reference_table p) data3 (uid, user) rest table \<Longrightarrow>
     spec_metadata p (b # bs)
       \<lparr>md_version = ucast version, md_timestamp = m_delta_timestamp p + dt,
        md_changeset = m_delta_changeset p + dc, md_uid = uid, md_user = user\<rparr>
       rest (p\<lparr>m_delta_timestamp := m_delta_timestamp p + dt,
                m_delta_changeset := m_delta_changeset p + dc,
                m_reference_table := table\<rparr>)"

text \<open>
  A tag list: while bytes remain, one interned pair \<open>key 00 value 00\<close> after the other.
\<close>

inductive spec_tag_list ::
  "ReferenceTable \<Rightarrow> byte list \<Rightarrow> (byte list \<times> byte list) list \<Rightarrow> ReferenceTable \<Rightarrow> bool" where
  no_tags: "spec_tag_list table [] [] table"
| inline_pair:
    "0 \<notin> set k \<Longrightarrow> 0 \<notin> set v \<Longrightarrow>
     spec_tag_list (ReferenceTable_add (k @ 0 # v @ [0]) table) rest tags table' \<Longrightarrow>
     spec_tag_list table (0 # k @ 0 # v @ 0 # rest) ((k, v) # tags) table'"
| referenced_pair:
    "b \<noteq> 0 \<Longrightarrow> decode_varint (b # bs) = Inr (index, rest) \<Longrightarrow>
     ReferenceTable_get (unat index) table = Inr (k @ 0 # v @ 0 # junk) \<Longrightarrow>
     0 \<notin> set k \<Longrightarrow> 0 \<notin> set v \<Longrightarrow> spec_tag_list table rest tags table' \<Longrightarrow>
     spec_tag_list table (b # bs) ((k, v) # tags) table'"

text \<open>
  For stating the properties of the parser. The input that the queue still holds is the
  concatenation of its chunks up to the end marker. The pointers of a parser are in order
  when they were set after the last change of the string, \<^verbatim>\<open>m_data\<close> lies between the
  start of the string and \<^verbatim>\<open>m_end\<close>, and the string with the input still to come is
  shorter than \<open>2 ^ 64\<close> bytes. The input still to be read is what lies between the two
  pointers, followed by the input in the queue. Two parser states decode alike when they
  differ in nothing but the string, the pointers and the queue.
\<close>

definition input_stream :: "O5mParser \<Rightarrow> byte list" where
  "input_stream p =
     (if input_done p then [] else concat (takeWhile (\<lambda>chunk. chunk \<noteq> []) (input_queue p)))"

definition pointers_in_order :: "O5mParser \<Rightarrow> bool" where
  "pointers_in_order p =
     (\<not> m_moved p \<and> m_mem p = m_input p \<and> m_data p \<le> length (m_mem p) \<and>
      length (m_mem p) + length (input_stream p) < 2 ^ 64)"

definition pending_input :: "O5mParser \<Rightarrow> byte list" where
  "pending_input p = drop (m_data p) (m_mem p) @ input_stream p"

definition decodes_alike :: "O5mParser \<Rightarrow> O5mParser \<Rightarrow> bool" where
  "decodes_alike p p' =
     (m_header p' = m_header p \<and> m_input_data p' = m_input_data p \<and>
      m_reference_table p' = m_reference_table p \<and> m_delta_id p' = m_delta_id p \<and>
      m_delta_timestamp p' = m_delta_timestamp p \<and> m_delta_changeset p' = m_delta_changeset p \<and>
      m_delta_lon p' = m_delta_lon p \<and> m_delta_lat p' = m_delta_lat p \<and>
      m_delta_way_node_id p' = m_delta_way_node_id p \<and>
      m_delta_member_ids p' = m_delta_member_ids p \<and> read_types p' = read_types p \<and>
      header_is_done p' = header_is_done p \<and> published_header p' = published_header p \<and>
      emitted p' = emitted p)"

text \<open>
  The members of the parser that the decoders of a dataset leave alone.
\<close>

definition same_frame :: "O5mParser \<Rightarrow> O5mParser \<Rightarrow> bool" where
  "same_frame p p' =
     (read_types p' = read_types p \<and> header_is_done p' = header_is_done p \<and>
      input_queue p' = input_queue p \<and> input_done p' = input_done p \<and>
      m_input p' = m_input p \<and> m_input_data p' = m_input_data p \<and> m_mem p' = m_mem p \<and>
      m_data p' = m_data p \<and> m_moved p' = m_moved p \<and> m_header p' = m_header p \<and>
      published_header p' = published_header p \<and> emitted p' = emitted p)"

section \<open>Properties of the reference table\<close>

lemma length_copy_n: "off + length src \<le> length dst \<Longrightarrow> length (copy_n src off dst) = length dst"
  by (simp add: copy_n_def)

lemma nth_copy_n:
  "off + length src \<le> length dst \<Longrightarrow> i < length dst \<Longrightarrow>
   copy_n src off dst ! i = (if off \<le> i \<and> i < off + length src then src ! (i - off) else dst ! i)"
  by (auto simp: copy_n_def nth_append min_def)

lemma add_wf:
  assumes "table_wf t"
  shows "table_wf (ReferenceTable_add s t)" "length (m_table (ReferenceTable_add s t)) = entry_size * number_of_entries"
  using assms
  by (auto simp: table_wf_def ReferenceTable_add_def Let_def length_copy_n entry_size_def number_of_entries_def max_length_def)

lemma add_all_append: "add_all (ss @ [s]) t = ReferenceTable_add s (add_all ss t)"
  by (induction ss arbitrary: t) simp_all

lemma add_all_wf: "table_wf t \<Longrightarrow> table_wf (add_all ss t)"
  by (induction ss arbitrary: t) (simp_all add: add_wf)

lemma add_current:
  "table_wf t \<Longrightarrow> length s \<le> max_length \<Longrightarrow>
   current_entry (ReferenceTable_add s t) = (current_entry t + 1) mod number_of_entries"
  by (auto simp: table_wf_def ReferenceTable_add_def Let_def number_of_entries_def)

lemma add_nth:
  assumes "table_wf t" "length s \<le> max_length" "m_table t \<noteq> []" "i < length (m_table t)"
  shows "m_table (ReferenceTable_add s t) ! i =
         (if current_entry t * entry_size \<le> i \<and> i < current_entry t * entry_size + length s
          then s ! (i - current_entry t * entry_size) else m_table t ! i)"
proof -
  have "current_entry t * entry_size + length s \<le> length (m_table t)"
    using assms by (auto simp: table_wf_def entry_size_def number_of_entries_def max_length_def)
  then show ?thesis
    using assms by (simp add: ReferenceTable_add_def Let_def nth_copy_n)
qed

lemma add_nth_fresh:
  assumes "table_wf t" "length s \<le> max_length" "m_table t = []" "i < length s"
  shows "m_table (ReferenceTable_add s t) ! (current_entry t * entry_size + i) = s ! i"
proof -
  have "current_entry t * entry_size + length s \<le> entry_size * number_of_entries"
    using assms by (auto simp: table_wf_def entry_size_def number_of_entries_def max_length_def)
  then show ?thesis
    using assms by (simp add: ReferenceTable_add_def Let_def nth_copy_n)
qed

lemma add_nth_written:
  assumes "table_wf t" "length s \<le> max_length" "i < length s"
  shows "m_table (ReferenceTable_add s t) ! (current_entry t * entry_size + i) = s ! i"
proof (cases "m_table t = []")
  case True
  then show ?thesis using assms by (simp add: add_nth_fresh)
next
  case False
  have "current_entry t * entry_size + i < length (m_table t)"
    using assms False by (auto simp: table_wf_def entry_size_def number_of_entries_def max_length_def)
  then show ?thesis using assms False by (simp add: add_nth)
qed

lemma add_nth_other_slot:
  assumes "table_wf t" "length s \<le> max_length" "m_table t \<noteq> []"
    "j < number_of_entries" "j \<noteq> current_entry t" "i < entry_size"
  shows "m_table (ReferenceTable_add s t) ! (j * entry_size + i) = m_table t ! (j * entry_size + i)"
proof -
  have len: "length (m_table t) = entry_size * number_of_entries"
    using assms by (auto simp: table_wf_def)
  have "Suc j \<le> number_of_entries" using assms by simp
  then have "Suc j * entry_size \<le> number_of_entries * entry_size"
    by (rule mult_le_mono1)
  then have inb: "j * entry_size + i < length (m_table t)"
    using assms len by (simp add: mult.commute)
  have out: "\<not> (current_entry t * entry_size \<le> j * entry_size + i \<and>
             j * entry_size + i < current_entry t * entry_size + length s)"
  proof (cases "j < current_entry t")
    case True
    then have "Suc j \<le> current_entry t" by simp
    then have "Suc j * entry_size \<le> current_entry t * entry_size" by (rule mult_le_mono1)
    then show ?thesis using assms by simp
  next
    case False
    then have "Suc (current_entry t) \<le> j" using assms by simp
    then have "Suc (current_entry t) * entry_size \<le> j * entry_size" by (rule mult_le_mono1)
    then show ?thesis using assms by (simp add: max_length_def entry_size_def)
  qed
  show ?thesis using add_nth [OF assms(1,2,3) inb] out by simp
qed

lemma mod_shift_neq:
  fixes a m n :: nat
  assumes "0 < m" "m < n" "m \<le> a"
  shows "(a - m) mod n \<noteq> a mod n"
proof
  assume "(a - m) mod n = a mod n"
  then have "a mod n = (a - m) mod n" by simp
  then have "n dvd a - (a - m)"
    using mod_eq_dvd_iff_nat [of "a - m" a n] by simp
  then have "n dvd m" using assms by simp
  then show False using assms by (auto dest: dvd_imp_le)
qed

lemma add_all_slots:
  assumes wf: "table_wf t" and len: "\<forall>s \<in> set ss. length s \<le> max_length"
  shows "current_entry (add_all ss t) = (current_entry t + length ss) mod number_of_entries \<and>
    (\<forall>k i. 1 \<le> k \<and> k \<le> min (length ss) number_of_entries \<and> i < length (ss ! (length ss - k)) \<longrightarrow>
       m_table (add_all ss t) !
         (((current_entry t + length ss - k) mod number_of_entries) * entry_size + i)
       = ss ! (length ss - k) ! i)"
  using len
proof (induction ss rule: rev_induct)
  case Nil
  then show ?case using wf by (simp add: table_wf_def)
next
  case (snoc s ss)
  let ?T = "add_all ss t"
  let ?c = "current_entry t"
  let ?N = "length ss"
  have wfT: "table_wf ?T" using wf by (rule add_all_wf)
  have ls: "length s \<le> max_length" using snoc.prems by simp
  have IH: "current_entry ?T = (?c + ?N) mod number_of_entries"
    and IHs: "\<And>k i. 1 \<le> k \<Longrightarrow> k \<le> min ?N number_of_entries \<Longrightarrow> i < length (ss ! (?N - k)) \<Longrightarrow>
       m_table ?T ! (((?c + ?N - k) mod number_of_entries) * entry_size + i) = ss ! (?N - k) ! i"
    using snoc.IH snoc.prems by auto
  have cur: "current_entry (add_all (ss @ [s]) t) = (?c + length (ss @ [s])) mod number_of_entries"
    using add_current [OF wfT ls] IH by (simp add: add_all_append mod_Suc_eq)
  have slots: "m_table (add_all (ss @ [s]) t) !
         (((?c + length (ss @ [s]) - k) mod number_of_entries) * entry_size + i)
       = (ss @ [s]) ! (length (ss @ [s]) - k) ! i"
    if k: "1 \<le> k" "k \<le> min (length (ss @ [s])) number_of_entries"
      and i: "i < length ((ss @ [s]) ! (length (ss @ [s]) - k))" for k i
  proof (cases "k = 1")
    case True
    then show ?thesis
      using add_nth_written [OF wfT ls, of i] i IH by (simp add: add_all_append)
  next
    case False
    define k' where "k' = k - 1"
    have k': "1 \<le> k'" "k' \<le> min ?N number_of_entries" "k = Suc k'" "k' < number_of_entries"
      using k False by (auto simp: k'_def)
    have "?N - k' < ?N" using k' by auto
    then have idx: "(ss @ [s]) ! (length (ss @ [s]) - k) = ss ! (?N - k')"
      using k' by (simp add: nth_append)
    have li: "i < length (ss ! (?N - k'))" using i idx by simp
    have "ss ! (?N - k') \<in> set ss" using k' by simp
    then have i256: "i < entry_size"
      using li snoc.prems by (fastforce simp: max_length_def entry_size_def)
    let ?j = "(?c + ?N - k') mod number_of_entries"
    have jlt: "?j < number_of_entries" by (simp add: number_of_entries_def)
    have jne: "?j \<noteq> current_entry ?T"
      unfolding IH using mod_shift_neq [of k' number_of_entries "?c + ?N"] k' by simp
    have ne: "m_table ?T \<noteq> []"
    proof
      assume e: "m_table ?T = []"
      have "ss \<noteq> []" using k' by auto
      then obtain s' ss' where "ss = ss' @ [s']" by (metis rev_exhaust)
      then have "length (m_table ?T) = entry_size * number_of_entries"
        using add_wf(2) [OF add_all_wf [OF wf, of ss'], of s'] by (simp add: add_all_append)
      then show False using e by (simp add: entry_size_def number_of_entries_def)
    qed
    have "m_table (ReferenceTable_add s ?T) ! (?j * entry_size + i) = m_table ?T ! (?j * entry_size + i)"
      by (rule add_nth_other_slot [OF wfT ls ne jlt jne i256])
    also have "\<dots> = ss ! (?N - k') ! i"
      by (rule IHs [OF k'(1,2) li])
    finally show ?thesis using k' idx by (simp add: add_all_append)
  qed
  show ?case using cur slots by blast
qed

lemma add_all_length:
  assumes "1 \<le> length ss" "table_wf t"
  shows "length (m_table (add_all ss t)) = entry_size * number_of_entries"
proof -
  have "ss \<noteq> []" using assms by auto
  then obtain s' ss' where "ss = ss' @ [s']" by (metis rev_exhaust)
  then show ?thesis
    using add_wf(2) [OF add_all_wf [OF assms(2), of ss'], of s'] by (simp add: add_all_append)
qed

text \<open>
  Claim C3. For every state of the table, \<^verbatim>\<open>get(index)\<close> throws the o5m error when the
  table string is empty, the index is 0 or the index is above 15000; otherwise it returns
  the pointer to the start of slot \<open>(current + 15000 - index) mod 15000\<close>, that is, the
  table's bytes from offset \<open>256 * slot\<close> on.
\<close>

theorem ReferenceTable_get_spec:
  "ReferenceTable_get index t =
     (if m_table t = [] \<or> index = 0 \<or> 15000 < index
      then Inl (o5m_error ''reference to non-existing string in table'')
      else Inr (drop (((current_entry t + 15000 - index) mod 15000) * 256) (m_table t)))"
  by (simp add: ReferenceTable_get_def number_of_entries_def entry_size_def Let_def)

lemma take_drop_all_zero:
  fixes xs :: "byte list"
  assumes "off + n \<le> length xs" "\<forall>i<n. xs ! (off + i) = 0"
  shows "take n (drop off xs) = replicate n 0"
  using assms by (auto simp: list_eq_iff_nth_eq)

lemma take_drop_same:
  assumes "off + n \<le> length xs" "off + n \<le> length ys" "\<forall>i<n. xs ! (off + i) = ys ! (off + i)"
  shows "take n (drop off xs) = take n (drop off ys)"
  using assms by (auto simp: list_eq_iff_nth_eq)

lemma slot_apart:
  assumes "j \<noteq> c" "i < entry_size" "length s \<le> max_length"
  shows "\<not> (c * entry_size \<le> j * entry_size + i \<and> j * entry_size + i < c * entry_size + length s)"
proof (cases "j < c")
  case True
  then have "Suc j \<le> c" by simp
  then have "Suc j * entry_size \<le> c * entry_size" by (rule mult_le_mono1)
  then show ?thesis using assms by simp
next
  case False
  then have "Suc c \<le> j" using assms by simp
  then have "Suc c * entry_size \<le> j * entry_size" by (rule mult_le_mono1)
  then show ?thesis using assms by (simp add: max_length_def entry_size_def)
qed

lemma slot_in_table:
  assumes "j < number_of_entries" "i < entry_size"
  shows "j * entry_size + i < entry_size * number_of_entries"
proof -
  have "Suc j \<le> number_of_entries" using assms by simp
  then have "Suc j * entry_size \<le> number_of_entries * entry_size" by (rule mult_le_mono1)
  then show ?thesis using assms by (simp add: mult.commute)
qed

lemma add_untouched:
  assumes "table_wf t" "length s \<le> max_length" "j < number_of_entries"
    "j \<noteq> current_entry t" "i < entry_size"
  shows "m_table (ReferenceTable_add s t) ! (j * entry_size + i) =
         (if m_table t = [] then 0 else m_table t ! (j * entry_size + i))"
proof (cases "m_table t = []")
  case False
  then show ?thesis using add_nth_other_slot [OF assms(1,2) False assms(3,4,5)] by simp
next
  case True
  let ?tab = "replicate (entry_size * number_of_entries) (0 :: byte)"
  have inb: "j * entry_size + i < length ?tab"
    using slot_in_table [OF assms(3,5)] by simp
  have room: "current_entry t * entry_size + length s \<le> length ?tab"
    using assms by (auto simp: table_wf_def entry_size_def number_of_entries_def max_length_def)
  have "copy_n s (current_entry t * entry_size) ?tab ! (j * entry_size + i) = ?tab ! (j * entry_size + i)"
    using nth_copy_n [OF room inb] slot_apart [OF assms(4,5,2)] by simp
  also have "\<dots> = 0" using inb by simp
  finally show ?thesis using True assms(2) by (simp add: ReferenceTable_add_def Let_def)
qed

lemma add_all_untouched:
  assumes wf: "table_wf t" and c0: "current_entry t = 0"
    and j: "j < number_of_entries" and i: "i < entry_size"
  shows "(\<forall>s \<in> set ss. length s \<le> max_length) \<Longrightarrow> length ss \<le> j \<Longrightarrow> ss \<noteq> [] \<Longrightarrow>
     m_table (add_all ss t) ! (j * entry_size + i) =
       (if m_table t = [] then 0 else m_table t ! (j * entry_size + i))"
proof (induction ss rule: rev_induct)
  case Nil
  then show ?case by simp
next
  case (snoc s ss)
  let ?T = "add_all ss t"
  have wfT: "table_wf ?T" using wf by (rule add_all_wf)
  have len: "\<forall>s \<in> set ss. length s \<le> max_length" and ls: "length s \<le> max_length"
    using snoc.prems by simp_all
  have "length ss < number_of_entries" using snoc.prems j by simp
  then have cur: "current_entry ?T = length ss"
    using add_all_slots [OF wf len] c0 by simp
  have jne: "j \<noteq> current_entry ?T" using snoc.prems cur by simp
  have step: "m_table (add_all (ss @ [s]) t) ! (j * entry_size + i) =
         (if m_table ?T = [] then 0 else m_table ?T ! (j * entry_size + i))"
    using add_untouched [OF wfT ls j jne i] by (simp add: add_all_append)
  show ?case
  proof (cases "ss = []")
    case True
    then show ?thesis using step by simp
  next
    case False
    then have "1 \<le> length ss" by (cases ss) simp_all
    then have "length (m_table ?T) = entry_size * number_of_entries"
      using wf by (rule add_all_length)
    then have ne: "m_table ?T \<noteq> []" by (auto simp: entry_size_def number_of_entries_def)
    have "m_table ?T ! (j * entry_size + i) =
            (if m_table t = [] then 0 else m_table t ! (j * entry_size + i))"
      using snoc.IH [OF len _ False] snoc.prems by simp
    then show ?thesis using step ne by simp
  qed
qed

text \<open>
  Claim C4, as the code has it. Let \<open>N\<close> strings of at most 252 bytes be inserted into a
  cleared table. For \<open>1 \<le> k \<le> min N 15000\<close>, \<^verbatim>\<open>get(k)\<close> returns the pointer to slot
  \<open>(N - k) mod 15000\<close>, where the \<open>(N - k + 1)\<close>-th inserted string stands. It throws for
  \<open>k = 0\<close>, for \<open>k > 15000\<close>, and for every \<open>k\<close> when the table string is still empty
  (nothing was ever inserted). For \<open>min N 15000 < k \<le> 15000\<close> on a table that has been
  written to, it throws nothing: it returns the pointer to slot \<open>N + 15000 - k\<close>, which
  none of the \<open>N\<close> insertions wrote, so that its 256 bytes are those the table held before
  them (zero bytes when the first of the insertions sized the string). The table keeps no
  count of its live entries.
\<close>

theorem ReferenceTable_get_after_insertions:
  assumes "table_wf t0" and "\<forall>s \<in> set ss. length s \<le> 252"
  shows "(1 \<le> k \<and> k \<le> min (length ss) 15000 \<longrightarrow>
            ReferenceTable_get k (add_all ss (ReferenceTable_clear t0))
              = Inr (drop (((length ss - k) mod 15000) * 256)
                          (m_table (add_all ss (ReferenceTable_clear t0))))
            \<and> take (length (ss ! (length ss - k)))
                 (drop (((length ss - k) mod 15000) * 256)
                       (m_table (add_all ss (ReferenceTable_clear t0))))
                = ss ! (length ss - k))
       \<and> (k = 0 \<or> 15000 < k \<or> (ss = [] \<and> m_table t0 = []) \<longrightarrow>
            ReferenceTable_get k (add_all ss (ReferenceTable_clear t0))
              = Inl (o5m_error ''reference to non-existing string in table''))
       \<and> (min (length ss) 15000 < k \<and> k \<le> 15000 \<and> (ss \<noteq> [] \<or> m_table t0 \<noteq> []) \<longrightarrow>
            ReferenceTable_get k (add_all ss (ReferenceTable_clear t0))
              = Inr (drop ((length ss + 15000 - k) * 256)
                          (m_table (add_all ss (ReferenceTable_clear t0))))
            \<and> take 256 (drop ((length ss + 15000 - k) * 256)
                               (m_table (add_all ss (ReferenceTable_clear t0))))
                = (if m_table t0 = [] then replicate 256 0
                   else take 256 (drop ((length ss + 15000 - k) * 256) (m_table t0))))"
proof -
  let ?t = "ReferenceTable_clear t0"
  let ?T = "add_all ss ?t"
  let ?N = "length ss"
  have wf: "table_wf ?t"
    using assms(1) by (simp add: table_wf_def ReferenceTable_clear_def number_of_entries_def)
  have c0: "current_entry ?t = 0" by (simp add: ReferenceTable_clear_def)
  have tab0: "m_table ?t = m_table t0" by (simp add: ReferenceTable_clear_def)
  have len: "\<forall>s \<in> set ss. length s \<le> max_length"
    using assms(2) by (simp add: max_length_def)
  have full: "length (m_table ?T) = entry_size * number_of_entries" if "1 \<le> ?N"
    using that wf by (rule add_all_length)
  have ne: "m_table ?T \<noteq> []" if "1 \<le> ?N"
    using full [OF that] by (auto simp: entry_size_def number_of_entries_def)
  have cur: "current_entry ?T = ?N mod number_of_entries"
    using add_all_slots [OF wf len] c0 by simp
  have part1: "ReferenceTable_get k ?T = Inr (drop (((?N - k) mod 15000) * 256) (m_table ?T))
                 \<and> take (length (ss ! (?N - k))) (drop (((?N - k) mod 15000) * 256) (m_table ?T))
                     = ss ! (?N - k)"
    if k: "1 \<le> k" "k \<le> min ?N 15000"
  proof -
    let ?s = "ss ! (?N - k)"
    let ?j = "(?N - k) mod number_of_entries"
    have N1: "1 \<le> ?N" using k by simp
    have "?N - k < ?N" using k by auto
    then have "?s \<in> set ss" by simp
    then have ls: "length ?s \<le> 252" using assms(2) by blast
    have kn: "k \<le> number_of_entries" using k by (simp add: number_of_entries_def)
    have "(?N mod number_of_entries + (number_of_entries - k)) mod number_of_entries
            = (?N + (number_of_entries - k)) mod number_of_entries"
      by (simp add: mod_add_left_eq)
    also have "?N + (number_of_entries - k) = ?N - k + number_of_entries"
      using k kn by simp
    also have "(?N - k + number_of_entries) mod number_of_entries = ?j" by simp
    finally have slot: "(current_entry ?T + number_of_entries - k) mod number_of_entries = ?j"
      using cur kn by simp
    have get: "ReferenceTable_get k ?T = Inr (drop (?j * entry_size) (m_table ?T))"
      using k ne [OF N1] slot by (simp add: ReferenceTable_get_def number_of_entries_def Let_def)
    have "Suc ?j \<le> number_of_entries" by (simp add: number_of_entries_def Suc_le_eq)
    then have "Suc ?j * entry_size \<le> number_of_entries * entry_size" by (rule mult_le_mono1)
    then have room: "?j * entry_size + length ?s \<le> length (m_table ?T)"
      using ls full [OF N1] by (simp add: entry_size_def mult.commute)
    have bytes: "m_table ?T ! (?j * entry_size + i) = ?s ! i" if "i < length ?s" for i
      using add_all_slots [OF wf len] c0 k that by (simp add: number_of_entries_def)
    have "take (length ?s) (drop (?j * entry_size) (m_table ?T)) = ?s"
      using room bytes by (auto simp: list_eq_iff_nth_eq)
    then show ?thesis using get by (simp add: number_of_entries_def entry_size_def)
  qed
  have part2: "ReferenceTable_get k ?T = Inl (o5m_error ''reference to non-existing string in table'')"
    if "k = 0 \<or> 15000 < k \<or> (ss = [] \<and> m_table t0 = [])"
    using that tab0 by (auto simp: ReferenceTable_get_def number_of_entries_def)
  have part3: "ReferenceTable_get k ?T = Inr (drop ((?N + 15000 - k) * 256) (m_table ?T))
                 \<and> take 256 (drop ((?N + 15000 - k) * 256) (m_table ?T))
                     = (if m_table t0 = [] then replicate 256 0
                        else take 256 (drop ((?N + 15000 - k) * 256) (m_table t0)))"
    if k: "min ?N 15000 < k" "k \<le> 15000" and w: "ss \<noteq> [] \<or> m_table t0 \<noteq> []"
  proof -
    let ?j = "?N + 15000 - k"
    have N: "?N < k" "?N < 15000" using k by auto
    then have jlt: "?j < number_of_entries" and jge: "?N \<le> ?j"
      using k by (simp_all add: number_of_entries_def)
    have curN: "current_entry ?T = ?N" using cur N by (simp add: number_of_entries_def)
    have neT: "m_table ?T \<noteq> []"
    proof (cases "ss = []")
      case True
      then show ?thesis using w tab0 by simp
    next
      case False
      then have "1 \<le> ?N" by (cases ss) simp_all
      then show ?thesis by (rule ne)
    qed
    have wfT: "table_wf ?T" using wf by (rule add_all_wf)
    have fullT: "length (m_table ?T) = entry_size * number_of_entries"
      using wfT neT by (simp add: table_wf_def)
    have get: "ReferenceTable_get k ?T = Inr (drop (?j * 256) (m_table ?T))"
      using k N neT curN
      by (simp add: ReferenceTable_get_def number_of_entries_def entry_size_def Let_def)
    have inb: "?j * entry_size + i < entry_size * number_of_entries" if "i < entry_size" for i
      using slot_in_table [OF jlt that] .
    have room: "?j * 256 + 256 \<le> length (m_table ?T)"
      using inb [of 255] fullT by (simp add: entry_size_def)
    have bytes: "m_table ?T ! (?j * entry_size + i) =
                   (if m_table t0 = [] then 0 else m_table t0 ! (?j * entry_size + i))"
      if "i < entry_size" for i
    proof (cases "ss = []")
      case True
      then show ?thesis using w tab0 by simp
    next
      case False
      show ?thesis
        using add_all_untouched [OF wf c0 jlt that len jge False] tab0 by simp
    qed
    have eq0: "\<forall>i<256. m_table ?T ! (?j * 256 + i) = 0" if "m_table t0 = []"
      using bytes that by (simp add: entry_size_def)
    have eq1: "\<forall>i<256. m_table ?T ! (?j * 256 + i) = m_table t0 ! (?j * 256 + i)"
      if "m_table t0 \<noteq> []"
      using bytes that by (simp add: entry_size_def)
    have slot: "take 256 (drop (?j * 256) (m_table ?T))
                  = (if m_table t0 = [] then replicate 256 0
                     else take 256 (drop (?j * 256) (m_table t0)))"
    proof (cases "m_table t0 = []")
      case True
      have "take 256 (drop (?j * 256) (m_table ?T)) = replicate 256 0"
        using room eq0 [OF True] by (rule take_drop_all_zero)
      then show ?thesis using True by (simp only: if_True refl simp_thms)
    next
      case False
      then have len0: "length (m_table t0) = entry_size * number_of_entries"
        using assms(1) by (simp add: table_wf_def)
      have room0: "?j * 256 + 256 \<le> length (m_table t0)"
        using room len0 fullT by simp
      have "take 256 (drop (?j * 256) (m_table ?T)) = take 256 (drop (?j * 256) (m_table t0))"
        using room room0 eq1 [OF False] by (rule take_drop_same)
      then show ?thesis using False by (simp only: if_False simp_thms)
    qed
    show ?thesis using get slot by (rule conjI)
  qed
  show ?thesis using part1 part2 part3 by blast
qed

text \<open>
  After the insertions of \<open>[1, 0]\<close> and \<open>[2, 3, 0]\<close> into a fresh table, index 2 gives the
  first of them, index 0 throws, and index 3 gives slot 14999 with its zero bytes.
\<close>

theorem ReferenceTable_get_after_insertions_witness:
  "take 2 (drop 0 (m_table (add_all [[1, 0], [2, 3, 0]] (ReferenceTable_clear ReferenceTable_init))))
     = [1, 0]
   \<and> ReferenceTable_get 0 (add_all [[1, 0], [2, 3, 0]] (ReferenceTable_clear ReferenceTable_init))
     = Inl (o5m_error ''reference to non-existing string in table'')
   \<and> take 256 (drop (14999 * 256)
        (m_table (add_all [[1, 0], [2, 3, 0]] (ReferenceTable_clear ReferenceTable_init))))
     = replicate 256 0"
proof -
  have wf: "table_wf ReferenceTable_init"
    by (simp add: table_wf_def ReferenceTable_init_def number_of_entries_def)
  have len: "\<forall>s \<in> set [[1, 0], [2, 3, 0 :: byte]]. length s \<le> 252" by simp
  have e: "m_table ReferenceTable_init = []" by (simp add: ReferenceTable_init_def)
  show ?thesis
    using ReferenceTable_get_after_insertions [OF wf len, of 2]
      ReferenceTable_get_after_insertions [OF wf len, of 0]
      ReferenceTable_get_after_insertions [OF wf len, of 3]
    by (simp add: numeral_2_eq_2 e)
qed

text \<open>
  After a single insertion, index 2 exceeds the number of strings inserted; \<open>get\<close> raises
  nothing and returns slot 14999 of the ring, 256 zero bytes that no insertion wrote.
\<close>

theorem ReferenceTable_get_unwritten_slot:
  "ReferenceTable_get 2 (add_all [[1, 0]] (ReferenceTable_clear ReferenceTable_init))
     = Inr (replicate 256 0)"
  by (simp add: ReferenceTable_get_def ReferenceTable_add_def ReferenceTable_clear_def
      ReferenceTable_init_def number_of_entries_def entry_size_def max_length_def copy_n_def
      Let_def)

section \<open>Properties of the buffer\<close>

lemma advance_entities:
  "list_all item_entity items \<Longrightarrow> advance_to_next_item_of_right_type items pos = (items, pos)"
  by (cases items) simp_all

lemma purge_loop_write:
  "list_all item_entity items \<Longrightarrow>
   fst (purge_loop items r w mem calls) = w + sum_sizes (survivors items)"
  by (induction items arbitrary: r w mem calls)
     (simp_all add: purge_loop.simps advance_entities sum_sizes_def survivors_def)

lemma purge_loop_calls:
  "list_all item_entity items \<Longrightarrow>
   snd (snd (purge_loop items r w mem calls))
     = calls @ filter (\<lambda>(old, new). old \<noteq> new) (old_new_offsets items r w)"
  by (induction items arbitrary: r w mem calls)
     (simp_all add: purge_loop.simps advance_entities)

lemma advance_sum:
  "advance_to_next_item_of_right_type items pos = (entities, next) \<Longrightarrow>
   next + sum_sizes entities = pos + sum_sizes items"
  by (induction items arbitrary: pos) (auto simp: sum_sizes_def split: if_splits)

lemma advance_ge:
  "advance_to_next_item_of_right_type items pos = (entities, next) \<Longrightarrow> pos \<le> next"
proof (induction items arbitrary: pos)
  case Nil
  then show ?case by simp
next
  case (Cons item items)
  show ?case
  proof (cases "item_entity item")
    case True
    then show ?thesis using Cons.prems by simp
  next
    case False
    then have "pos + padded_size item \<le> next" using Cons by simp
    then show ?thesis by simp
  qed
qed

lemma purge_loop_bound:
  "w \<le> r \<Longrightarrow> fst (purge_loop items r w mem calls) \<le> r + sum_sizes items"
proof (induction "length items" arbitrary: items r w mem calls rule: less_induct)
  case less
  show ?case
  proof (cases items)
    case Nil
    then show ?thesis using less.prems by (simp add: purge_loop.simps)
  next
    case (Cons item rest)
    let ?n = "padded_size item"
    obtain entities "next" where
      adv: "advance_to_next_item_of_right_type rest (r + ?n) = (entities, next)"
      by (cases "advance_to_next_item_of_right_type rest (r + ?n)")
    have len: "length entities < length items"
      using advance_to_next_item_of_right_type_length [OF adv [symmetric]] Cons by simp
    have s: "next + sum_sizes entities = r + ?n + sum_sizes rest"
      using advance_sum [OF adv] .
    have sc: "sum_sizes items = ?n + sum_sizes rest"
      using Cons by (simp add: sum_sizes_def)
    have ge: "r + ?n \<le> next" using advance_ge [OF adv] .
    define B where "B = r + sum_sizes items"
    have IH: "fst (purge_loop entities next w' mem' calls') \<le> B"
      if "w' \<le> next" for w' mem' calls'
      using less.hyps [OF len that, of mem' calls'] s sc by (simp add: B_def)
    have w1: "w \<le> next" "w + ?n \<le> next" using ge less.prems by simp_all
    have "fst (purge_loop (item # rest) r w mem calls) \<le> B"
      unfolding purge_loop.simps adv using IH [OF w1(1)] IH [OF w1(2)] by simp
    then show ?thesis using Cons by (simp add: B_def)
  qed
qed

lemma old_new_offsets_bounds:
  "w \<le> r \<Longrightarrow> (old, new) \<in> set (old_new_offsets items r w) \<Longrightarrow>
     new \<le> old \<and> r \<le> old \<and> w \<le> new"
proof (induction items arbitrary: r w)
  case Nil
  then show ?case by simp
next
  case (Cons item items)
  show ?case
  proof (cases "item_removed item")
    case True
    then have mem: "(old, new) \<in> set (old_new_offsets items (r + padded_size item) w)"
      using Cons.prems by simp
    have "w \<le> r + padded_size item" using Cons.prems by simp
    from Cons.IH [OF this mem] show ?thesis by simp
  next
    case False
    then consider "old = r \<and> new = w"
      | "(old, new) \<in> set (old_new_offsets items (r + padded_size item) (w + padded_size item))"
      using Cons.prems by auto
    then show ?thesis
    proof cases
      case 1
      then show ?thesis using Cons.prems by simp
    next
      case 2
      have "w + padded_size item \<le> r + padded_size item" using Cons.prems by simp
      from Cons.IH [OF this 2] show ?thesis by simp
    qed
  qed
qed

lemma old_new_offsets_monotone:
  "w \<le> r \<Longrightarrow>
   sorted_wrt (\<lambda>(old1, new1) (old2, new2). old1 \<le> old2 \<and> new1 \<le> new2) (old_new_offsets items r w)"
proof (induction items arbitrary: r w)
  case Nil
  then show ?case by simp
next
  case (Cons item items)
  show ?case
  proof (cases "item_removed item")
    case True
    then show ?thesis using Cons.IH [of w "r + padded_size item"] Cons.prems by simp
  next
    case False
    have le: "w + padded_size item \<le> r + padded_size item" using Cons.prems by simp
    have "r \<le> fst p \<and> w \<le> snd p"
      if "p \<in> set (old_new_offsets items (r + padded_size item) (w + padded_size item))"
      for p
      using old_new_offsets_bounds [OF le, of "fst p" "snd p" items] that by simp
    then show ?thesis using False Cons.IH [OF le] by (simp add: case_prod_beta)
  qed
qed

lemma old_new_offsets_new:
  "map snd (old_new_offsets items r w)
     = map (\<lambda>k. w + sum_sizes (take k (survivors items))) [0..<length (survivors items)]"
proof (induction items arbitrary: r w)
  case Nil
  then show ?case by (simp add: survivors_def)
next
  case (Cons item items)
  show ?case
  proof (cases "item_removed item")
    case True
    then show ?thesis using Cons.IH by (simp add: survivors_def)
  next
    case False
    then have sv: "survivors (item # items) = item # survivors items"
      by (simp add: survivors_def)
    have "map snd (old_new_offsets (item # items) r w)
            = w # map snd (old_new_offsets items (r + padded_size item) (w + padded_size item))"
      using False by simp
    also have "\<dots> = w # map (\<lambda>k. w + padded_size item + sum_sizes (take k (survivors items)))
                          [0..<length (survivors items)]"
      by (simp only: Cons.IH)
    also have "\<dots> = map (\<lambda>k. w + sum_sizes (take k (item # survivors items)))
                          [0..<Suc (length (survivors items))]"
      by (simp add: map_upt_Suc sum_sizes_def del: upt_Suc)
    finally show ?thesis by (simp only: sv length_Cons)
  qed
qed

lemma length_memmove:
  "dst + n \<le> length mem \<Longrightarrow> src + n \<le> length mem \<Longrightarrow> length (memmove dst src n mem) = length mem"
  by (simp add: memmove_def copy_n_def)

lemma take_memmove:
  "dst + n \<le> length mem \<Longrightarrow> src + n \<le> length mem \<Longrightarrow>
   take dst (memmove dst src n mem) = take dst mem"
  by (simp add: memmove_def copy_n_def)

lemma drop_memmove:
  "dst + n \<le> length mem \<Longrightarrow> src + n \<le> length mem \<Longrightarrow> dst + n \<le> k \<Longrightarrow>
   drop k (memmove dst src n mem) = drop k mem"
  by (simp add: memmove_def copy_n_def)

lemma mid_memmove:
  "dst + n \<le> length mem \<Longrightarrow> src + n \<le> length mem \<Longrightarrow>
   take n (drop dst (memmove dst src n mem)) = take n (drop src mem)"
  by (simp add: memmove_def copy_n_def)

lemma take_add_eq_split:
  assumes "take (a + b) xs = take (a + b) ys"
  shows "take a xs = take a ys" "take b (drop a xs) = take b (drop a ys)"
proof -
  have "take a (take (a + b) xs) = take a (take (a + b) ys)" using assms by simp
  then show "take a xs = take a ys" by (simp add: min_def)
  have "drop a (take (a + b) xs) = drop a (take (a + b) ys)" using assms by simp
  then show "take b (drop a xs) = take b (drop a ys)" by (simp add: drop_take)
qed

lemma layout_split:
  assumes "take (length d + S) (drop r mem) = d @ rest" "length rest = S"
  shows "take (length d) (drop r mem) = d" "take S (drop (r + length d) mem) = rest"
proof -
  have eq: "take (length d) (drop r mem) @ take S (drop (length d) (drop r mem)) = d @ rest"
    using assms(1) by (simp add: take_add)
  have "length (take (length d + S) (drop r mem)) = length d + S"
    using assms by simp
  then have "length d + S \<le> length (drop r mem)" by simp
  then have "length (take (length d) (drop r mem)) = length d" by simp
  with eq show "take (length d) (drop r mem) = d" by (metis append_eq_append_conv)
  with eq show "take S (drop (r + length d) mem) = rest"
    by (simp add: add.commute)
qed

lemma sum_sizes_concat: "length (concat (map item_data items)) = sum_sizes items"
  by (induction items) (simp_all add: sum_sizes_def padded_size_def)

lemma purge_loop_memory:
  assumes "w \<le> r" "r + sum_sizes items \<le> length mem"
    "take (sum_sizes items) (drop r mem) = concat (map item_data items)"
    "list_all item_entity items"
  shows "length (fst (snd (purge_loop items r w mem calls))) = length mem
       \<and> take w (fst (snd (purge_loop items r w mem calls))) = take w mem
       \<and> take (sum_sizes (survivors items)) (drop w (fst (snd (purge_loop items r w mem calls))))
           = concat (map item_data (survivors items))"
  using assms
proof (induction items arbitrary: r w mem calls)
  case Nil
  then show ?case by (simp add: survivors_def sum_sizes_def purge_loop.simps)
next
  case (Cons item items)
  let ?n = "padded_size item"
  let ?S = "sum_sizes items"
  have ent: "list_all item_entity items" using Cons.prems(4) by simp
  note adv = advance_entities [OF ent]
  have nlen: "?n = length (item_data item)" by (simp add: padded_size_def)
  have sumc: "sum_sizes (item # items) = ?n + ?S" by (simp add: sum_sizes_def)
  have lay: "take (length (item_data item) + ?S) (drop r mem)
               = item_data item @ concat (map item_data items)"
    using Cons.prems(3) by (simp add: sumc nlen)
  have here: "take ?n (drop r mem) = item_data item"
    using layout_split(1) [OF lay sum_sizes_concat] by (simp add: nlen)
  have rest: "take ?S (drop (r + ?n) mem) = concat (map item_data items)"
    using layout_split(2) [OF lay sum_sizes_concat] by (simp add: nlen)
  have room: "r + ?n + ?S \<le> length mem" using Cons.prems(2) by (simp add: sumc)
  show ?case
  proof (cases "item_removed item")
    case True
    have le: "w \<le> r + ?n" using Cons.prems(1) by simp
    show ?thesis
      using True Cons.IH [OF le room rest ent, of calls]
      by (simp add: survivors_def purge_loop.simps adv)
  next
    case False
    have sv: "survivors (item # items) = item # survivors items"
      using False by (simp add: survivors_def)
    have le: "w + ?n \<le> r + ?n" using Cons.prems(1) by simp
    define mem1 where "mem1 = (if r \<noteq> w then memmove w r ?n mem else mem)"
    define calls1 where "calls1 = (if r \<noteq> w then calls @ [(r, w)] else calls)"
    have step: "purge_loop (item # items) r w mem calls = purge_loop items (r + ?n) (w + ?n) mem1 calls1"
      using False by (simp add: purge_loop.simps adv mem1_def calls1_def)
    have wn: "w + ?n \<le> length mem" "r + ?n \<le> length mem" using room le by simp_all
    have len1: "length mem1 = length mem"
      using wn by (simp add: mem1_def length_memmove)
    have take1: "take w mem1 = take w mem"
      using wn by (simp add: mem1_def take_memmove)
    have mid1: "take ?n (drop w mem1) = item_data item"
      using wn here by (auto simp: mem1_def mid_memmove)
    have drop1: "drop (r + ?n) mem1 = drop (r + ?n) mem"
      using wn le by (simp add: mem1_def drop_memmove)
    have room1: "r + ?n + ?S \<le> length mem1" using room len1 by simp
    have rest1: "take ?S (drop (r + ?n) mem1) = concat (map item_data items)"
      using rest drop1 by simp
    let ?mem' = "fst (snd (purge_loop items (r + ?n) (w + ?n) mem1 calls1))"
    have IH: "length ?mem' = length mem1" "take (w + ?n) ?mem' = take (w + ?n) mem1"
      "take (sum_sizes (survivors items)) (drop (w + ?n) ?mem') = concat (map item_data (survivors items))"
      using Cons.IH [OF le room1 rest1 ent, of calls1] by simp_all
    have a: "take w ?mem' = take w mem"
      using take_add_eq_split(1) [OF IH(2)] take1 by simp
    have b: "take ?n (drop w ?mem') = item_data item"
      using take_add_eq_split(2) [OF IH(2)] mid1 by simp
    have "take (sum_sizes (survivors (item # items))) (drop w ?mem')
            = take ?n (drop w ?mem') @ take (sum_sizes (survivors items)) (drop (w + ?n) ?mem')"
      by (simp add: sv sum_sizes_def take_add add.commute)
    then have c: "take (sum_sizes (survivors (item # items))) (drop w ?mem')
            = concat (map item_data (survivors (item # items)))"
      using b IH(3) by (simp add: sv)
    show ?thesis unfolding step using IH(1) len1 a c by simp
  qed
qed

lemma size_t_id: "n < 2 ^ 64 \<Longrightarrow> size_t n = n"
  by (simp add: size_t_def)

lemma size_t_less: "size_t n < 2 ^ 64"
  by (simp add: size_t_def)

lemma size_t_aligned: "n mod 8 = 0 \<Longrightarrow> size_t n mod 8 = 0"
proof -
  assume "n mod 8 = 0"
  have "(8::nat) dvd 2 ^ 64" by simp
  then have "n mod 2 ^ 64 mod 8 = n mod 8" by (rule mod_mod_cancel)
  then show ?thesis using \<open>n mod 8 = 0\<close> by (simp add: size_t_def)
qed

lemma padded_length_aligned: "padded_length n mod align_bytes = 0"
  by (simp add: padded_length_def)

lemma padded_length_less: "padded_length n < 2 ^ 64"
proof -
  have "padded_length n \<le> size_t (n + align_bytes - 1)"
    by (simp add: padded_length_def align_bytes_def)
  then show ?thesis using size_t_less [of "n + align_bytes - 1"] by simp
qed

lemma padded_length_id:
  assumes "n mod 8 = 0" "n < 2 ^ 64"
  shows "padded_length n = n"
proof -
  have "n < 18446744073709551616" using assms(2) by simp
  then have "n + 7 < 18446744073709551616" using assms(1) by presburger
  then have "n + 7 < 2 ^ 64" by simp
  then have "size_t (n + 7) = n + 7" by (rule size_t_id)
  moreover have "(n + 7) div 8 * 8 = n" using assms(1) by presburger
  ultimately show ?thesis by (simp add: padded_length_def align_bytes_def add.commute)
qed

lemma calculate_capacity_aligned: "calculate_capacity n mod align_bytes = 0"
  using padded_length_aligned [of n]
  by (simp add: calculate_capacity_def min_capacity_def align_bytes_def)

lemma calculate_capacity_less: "calculate_capacity n < 2 ^ 64"
  using padded_length_less [of n]
  by (simp add: calculate_capacity_def min_capacity_def)

lemma calculate_capacity_ge:
  assumes "n mod 8 = 0" "n < 2 ^ 64"
  shows "n \<le> calculate_capacity n"
  using assms by (simp add: calculate_capacity_def padded_length_id min_capacity_def)

lemma double_capacity_result:
  assumes "double_capacity need c = Some r" "c mod 8 = 0" "c < 2 ^ 64"
  shows "need \<le> r \<and> r mod 8 = 0 \<and> r < 2 ^ 64"
proof -
  define P where "P = (\<lambda>(need :: nat) (c :: nat) (r :: nat).
     c mod 8 = 0 \<and> c < 2 ^ 64 \<longrightarrow> (need \<le> r \<and> r mod 8 = 0 \<and> r < 2 ^ 64))"
  have "P need c r"
  proof (rule double_capacity.raw_induct [where P = P, OF _ assms(1)])
    fix rec and need c r :: nat
    assume IH: "\<And>a b y. rec a b = Some y \<Longrightarrow> P a b y"
      and eq: "(if c < need then rec need (size_t (c * 2)) else Some c) = Some r"
    show "P need c r"
    proof (cases "c < need")
      case True
      then have call: "rec need (size_t (c * 2)) = Some r" using eq by simp
      show ?thesis unfolding P_def
      proof
        assume "c mod 8 = 0 \<and> c < 2 ^ 64"
        then have "c * 2 mod 8 = 0" by presburger
        then have "size_t (c * 2) mod 8 = 0" by (rule size_t_aligned)
        then show "need \<le> r \<and> r mod 8 = 0 \<and> r < 2 ^ 64"
          using IH [OF call] size_t_less [of "c * 2"] by (simp add: P_def)
      qed
    next
      case False
      then have "r = c" using eq by simp
      then show ?thesis using False by (simp add: P_def)
    qed
  qed
  then show ?thesis using assms(2,3) by (simp add: P_def)
qed

lemma double_capacity_terminates:
  assumes "0 < c" "need \<le> 2 ^ 63"
  shows "\<exists>k. double_capacity need c = Some (c * 2 ^ k) \<and> need \<le> c * 2 ^ k \<and>
             (0 < k \<longrightarrow> c * 2 ^ (k - 1) < need)"
  using assms
proof (induction "need - c" arbitrary: c rule: less_induct)
  case less
  show ?case
  proof (cases "c < need")
    case False
    then have "double_capacity need c = Some (c * 2 ^ 0)"
      by (subst double_capacity.simps) simp
    then show ?thesis using False by (intro exI [of _ 0]) simp
  next
    case True
    have "c * 2 < 2 * 2 ^ 63" using True less.prems by simp
    then have "c * 2 < 2 ^ 64" by simp
    then have st: "size_t (c * 2) = c * 2" by (rule size_t_id)
    have "need - c * 2 < need - c" using True less.prems by simp
    from less.hyps [OF this _ less.prems(2)] less.prems(1)
    obtain k where k: "double_capacity need (c * 2) = Some (c * 2 * 2 ^ k)"
      "need \<le> c * 2 * 2 ^ k" "0 < k \<longrightarrow> c * 2 * 2 ^ (k - 1) < need"
      by auto
    have "double_capacity need c = Some (c * 2 ^ Suc k)"
      using True k(1) st by (subst double_capacity.simps) (simp add: mult.assoc)
    moreover have "need \<le> c * 2 ^ Suc k" using k(2) by (simp add: mult.assoc)
    moreover have "c * 2 ^ (Suc k - 1) < need"
    proof (cases k)
      case 0
      then show ?thesis using True by simp
    next
      case (Suc j)
      then show ?thesis using k(3) by (simp add: mult.assoc)
    qed
    ultimately show ?thesis by (intro exI [of _ "Suc k"]) simp
  qed
qed

lemma grow_internal_result:
  assumes "buffer_inv b" "grow_internal b = Inr b'"
  shows "buffer_inv b'" "m_written b' = m_written b - m_committed b" "m_committed b' = 0"
    "m_capacity b' = m_capacity b" "m_memory b'" "m_auto_grow b' = m_auto_grow b"
proof -
  have w: "size_t (m_written b + 2 ^ 64 - m_committed b) = m_written b - m_committed b"
  proof -
    have "m_written b + 2 ^ 64 - m_committed b = (m_written b - m_committed b) + 2 ^ 64"
      using assms(1) by (simp add: buffer_inv_def)
    moreover have "m_written b - m_committed b < 2 ^ 64"
      using assms(1) unfolding buffer_inv_def by linarith
    ultimately have "size_t (m_written b + 2 ^ 64 - m_committed b)
        = (m_written b - m_committed b + 2 ^ 64) mod 2 ^ 64"
      by (simp only: size_t_def)
    also have "\<dots> = (m_written b - m_committed b) mod 2 ^ 64"
      by (rule mod_add_self2)
    also have "\<dots> = m_written b - m_committed b"
      using \<open>m_written b - m_committed b < 2 ^ 64\<close> by (rule mod_less)
    finally show ?thesis .
  qed
  have mem: "m_memory b"
    using assms(2) by (cases "m_memory b") (simp_all add: grow_internal_def)
  obtain old where old: "Buffer_with_committed True (buffer_data b) (m_capacity b) (m_committed b) = Inr old"
    using assms(2) mem
    by (cases "Buffer_with_committed True (buffer_data b) (m_capacity b) (m_committed b)")
       (simp_all add: grow_internal_def)
  have "Inr b' = (Inr (b\<lparr>Buffer.m_data := Some (copy_n (take (m_written b - m_committed b)
                     (drop (m_committed b) (buffer_data old))) 0 (new_bytes (m_capacity b))),
             m_written := m_written b - m_committed b, m_committed := 0,
             m_next_buffer := \<lparr>nested_data = buffer_data old, nested_capacity = m_capacity old,
                            nested_committed = m_committed old\<rparr> # m_next_buffer b\<rparr>) :: error + Buffer)"
    using assms(2) mem old w by (simp add: grow_internal_def Let_def)
  then have b': "b' = b\<lparr>Buffer.m_data := Some (copy_n (take (m_written b - m_committed b)
                     (drop (m_committed b) (buffer_data old))) 0 (new_bytes (m_capacity b))),
             m_written := m_written b - m_committed b, m_committed := 0,
             m_next_buffer := \<lparr>nested_data = buffer_data old, nested_capacity = m_capacity old,
                            nested_committed = m_committed old\<rparr> # m_next_buffer b\<rparr>"
    by (simp only: sum.inject)
  show "m_written b' = m_written b - m_committed b" "m_committed b' = 0"
    "m_capacity b' = m_capacity b" "m_memory b'" "m_auto_grow b' = m_auto_grow b"
    by (simp_all add: b' mem)
  then show "buffer_inv b'" using assms(1) mem by (auto simp: buffer_inv_def)
qed


lemma grow_result:
  assumes "buffer_inv b" "grow n b = Inr b'"
  shows "buffer_inv b'" "m_written b' = m_written b" "m_committed b' = m_committed b"
    "m_capacity b' = max (m_capacity b) (calculate_capacity n)"
    "m_memory b'" "m_auto_grow b' = m_auto_grow b" "m_next_buffer b' = m_next_buffer b"
    "m_capacity b \<le> length (buffer_data b) \<longrightarrow>
       take (m_capacity b) (buffer_data b') = take (m_capacity b) (buffer_data b)"
proof -
  have mem: "m_memory b" using assms(2) by (auto simp: grow_def split: if_splits)
  consider (same) "\<not> m_capacity b < calculate_capacity n" "b' = b"
    | (bigger) "m_capacity b < calculate_capacity n"
        "b' = b\<lparr>Buffer.m_data := Some (copy_n (take (m_capacity b) (buffer_data b)) 0 (new_bytes (calculate_capacity n))),
                 m_capacity := calculate_capacity n\<rparr>"
    using assms(2) by (auto simp: grow_def Let_def split: if_splits)
  then have all: "buffer_inv b' \<and> m_written b' = m_written b \<and> m_committed b' = m_committed b \<and>
    m_capacity b' = max (m_capacity b) (calculate_capacity n) \<and>
    m_memory b' \<and> m_auto_grow b' = m_auto_grow b \<and> m_next_buffer b' = m_next_buffer b \<and>
    (m_capacity b \<le> length (buffer_data b) \<longrightarrow>
       take (m_capacity b) (buffer_data b') = take (m_capacity b) (buffer_data b))"
  proof cases
    case same
    then show ?thesis using mem assms(1) by (simp add: buffer_inv_def)
  next
    case bigger
    have "buffer_inv b'"
      using bigger(1) mem assms(1) calculate_capacity_aligned [of n] calculate_capacity_less [of n]
      by (simp add: bigger(2) buffer_inv_def)
    moreover have "m_capacity b \<le> length (buffer_data b) \<longrightarrow>
        take (m_capacity b) (buffer_data b') = take (m_capacity b) (buffer_data b)"
      by (simp add: bigger(2) buffer_data_def copy_n_def new_bytes_def)
    ultimately show ?thesis
      using bigger(1) mem by (simp add: bigger(2))
  qed
  then show "buffer_inv b'" "m_written b' = m_written b" "m_committed b' = m_committed b"
    "m_capacity b' = max (m_capacity b) (calculate_capacity n)"
    "m_memory b'" "m_auto_grow b' = m_auto_grow b" "m_next_buffer b' = m_next_buffer b"
    "m_capacity b \<le> length (buffer_data b) \<longrightarrow>
       take (m_capacity b) (buffer_data b') = take (m_capacity b) (buffer_data b)"
    by simp_all
qed

lemma finish_inv:
  assumes "buffer_inv b" "m_written b + n \<le> m_capacity b"
  shows "buffer_inv (b\<lparr>m_written := m_written b + n\<rparr>)"
  using assms by (simp add: buffer_inv_def)

lemma reserve_space_fits:
  assumes "m_written b + n < 2 ^ 64" "m_written b + n \<le> m_capacity b"
  shows "reserve_space full n b = Some (Inr (m_written b, b\<lparr>m_written := m_written b + n\<rparr>))"
  using assms by (simp add: reserve_space_def size_t_id Let_def)

lemma reserve_space_grows:
  assumes inv: "buffer_inv b" and nov: "m_written b + n < 2 ^ 64"
    and big: "m_capacity b < m_written b + n"
    and res: "reserve_space None n b = Some (Inr (p, b'))"
  shows "\<exists>b2. (if m_auto_grow b = auto_grow_internal \<and> m_committed b \<noteq> 0
              then grow_internal b = Inr b2 else b2 = b) \<and>
          m_memory b \<and> m_auto_grow b \<noteq> auto_grow_no \<and>
          (if m_capacity b2 < m_written b2 + n
           then \<exists>nc b3. double_capacity (m_written b2 + n) (size_t (m_capacity b2 * 2)) = Some nc \<and>
                  grow nc b2 = Inr b3 \<and> p = m_written b3 \<and>
                  b' = b3\<lparr>m_written := m_written b3 + n\<rparr>
           else p = m_written b2 \<and> b' = b2\<lparr>m_written := m_written b2 + n\<rparr>)"
proof -
  have st: "size_t (m_written b + n) = m_written b + n" using nov by (rule size_t_id)
  have ok: "m_memory b" "m_auto_grow b \<noteq> auto_grow_no"
    using res big st by (auto simp: reserve_space_def Let_def split: if_splits)
  define g where "g = (if m_auto_grow b = auto_grow_internal \<and> m_committed b \<noteq> 0
                       then grow_internal b else Inr b)"
  obtain b2 where b2: "g = Inr b2"
    using res big st ok by (cases g) (auto simp: reserve_space_def Let_def g_def split: if_splits)
  have b2': "if m_auto_grow b = auto_grow_internal \<and> m_committed b \<noteq> 0
              then grow_internal b = Inr b2 else b2 = b"
    using b2 by (auto simp: g_def split: if_splits)
  have inv2: "buffer_inv b2" and w2: "m_written b2 \<le> m_written b"
    using b2' inv grow_internal_result(1,2) [OF inv] by (auto split: if_splits)
  have st2: "size_t (m_written b2 + n) = m_written b2 + n"
    using nov w2 by (intro size_t_id) simp
  have res2: "Some (Inr (p, b')) =
      (if m_capacity b2 < m_written b2 + n
       then case double_capacity (m_written b2 + n) (size_t (m_capacity b2 * 2)) of
              None \<Rightarrow> None
            | Some new_capacity \<Rightarrow>
                (case grow new_capacity b2 of
                   Inl e \<Rightarrow> Some (Inl e)
                 | Inr b3 \<Rightarrow> Some (Inr (m_written b3, b3\<lparr>m_written := size_t (m_written b3 + n)\<rparr>)))
       else Some (Inr (m_written b2, b2\<lparr>m_written := m_written b2 + n\<rparr>)))"
    using res big st ok b2 st2 unfolding reserve_space_def g_def Let_def
    by (auto split: if_splits sum.splits option.splits)
  show ?thesis
  proof (cases "m_capacity b2 < m_written b2 + n")
    case False
    then show ?thesis using res2 b2' ok by (intro exI [of _ b2]) simp
  next
    case True
    then obtain nc where nc: "double_capacity (m_written b2 + n) (size_t (m_capacity b2 * 2)) = Some nc"
      using res2 by (cases "double_capacity (m_written b2 + n) (size_t (m_capacity b2 * 2))") simp_all
    then obtain b3 where b3: "grow nc b2 = Inr b3"
      using res2 True by (cases "grow nc b2") simp_all
    have "m_written b3 = m_written b2" using grow_result(2) [OF inv2 b3] .
    then have "size_t (m_written b3 + n) = m_written b3 + n" using st2 by simp
    then have "p = m_written b3 \<and> b' = b3\<lparr>m_written := m_written b3 + n\<rparr>"
      using res2 True nc b3 by simp
    then show ?thesis using True nc b3 b2' ok by (intro exI [of _ b2]) auto
  qed
qed

lemma reserve_space_inv:
  assumes inv: "buffer_inv b" and nov: "m_written b + n < 2 ^ 64"
    and res: "reserve_space None n b = Some (Inr (p, b'))"
  shows "buffer_inv b'"
proof (cases "m_written b + n \<le> m_capacity b")
  case True
  then have "b' = b\<lparr>m_written := m_written b + n\<rparr>"
    using res reserve_space_fits [OF nov True, of None] by auto
  then show ?thesis using finish_inv [OF inv True] by simp
next
  case False
  then have big: "m_capacity b < m_written b + n" by simp
  from reserve_space_grows [OF inv nov big res]
  obtain b2 where b2: "if m_auto_grow b = auto_grow_internal \<and> m_committed b \<noteq> 0
              then grow_internal b = Inr b2 else b2 = b"
    and mem: "m_memory b"
    and rest: "if m_capacity b2 < m_written b2 + n
           then \<exists>nc b3. double_capacity (m_written b2 + n) (size_t (m_capacity b2 * 2)) = Some nc \<and>
                  grow nc b2 = Inr b3 \<and> p = m_written b3 \<and>
                  b' = b3\<lparr>m_written := m_written b3 + n\<rparr>
           else p = m_written b2 \<and> b' = b2\<lparr>m_written := m_written b2 + n\<rparr>"
    by blast
  have inv2: "buffer_inv b2" and mem2: "m_memory b2"
    using b2 inv mem grow_internal_result(1,5) [OF inv] by (auto split: if_splits)
  show ?thesis
  proof (cases "m_capacity b2 < m_written b2 + n")
    case False
    then have "b' = b2\<lparr>m_written := m_written b2 + n\<rparr>" "m_written b2 + n \<le> m_capacity b2"
      using rest by simp_all
    then show ?thesis using finish_inv [OF inv2] by simp
  next
    case True
    then obtain nc b3 where nc: "double_capacity (m_written b2 + n) (size_t (m_capacity b2 * 2)) = Some nc"
      and b3: "grow nc b2 = Inr b3" and b': "b' = b3\<lparr>m_written := m_written b3 + n\<rparr>"
      using rest by auto
    have "m_capacity b2 mod 8 = 0" using inv2 mem2 by (simp add: buffer_inv_def align_bytes_def)
    then have "m_capacity b2 * 2 mod 8 = 0" by presburger
    then have "size_t (m_capacity b2 * 2) mod 8 = 0" by (rule size_t_aligned)
    from double_capacity_result [OF nc this size_t_less]
    have r: "m_written b2 + n \<le> nc" "nc mod 8 = 0" "nc < 2 ^ 64" by simp_all
    have "nc \<le> calculate_capacity nc" using r(2,3) by (rule calculate_capacity_ge)
    then have "m_written b3 + n \<le> m_capacity b3"
      using r(1) grow_result(2,4) [OF inv2 b3] by simp
    then show ?thesis using finish_inv [OF grow_result(1) [OF inv2 b3]] b' by simp
  qed
qed

lemma buffer_inv_data_update: "buffer_inv (b\<lparr>Buffer.m_data := d\<rparr>) = buffer_inv b"
  by (simp add: buffer_inv_def)

lemma add_item_inv:
  assumes "buffer_inv b" "m_written b + padded_size item < 2 ^ 64"
    "add_item None item b = Some (Inr (p, b'))"
  shows "buffer_inv b'"
proof -
  obtain b1 where r: "reserve_space None (padded_size item) b = Some (Inr (p, b1))"
    and b': "b' = b1\<lparr>Buffer.m_data := Some (copy_n (item_data item) p (buffer_data b1))\<rparr>"
    using assms(3) by (auto simp: add_item_def split: option.splits sum.splits)
  show ?thesis using reserve_space_inv [OF assms(1,2) r] by (simp add: b' buffer_inv_data_update)
qed

lemma sum_sizes_survivors_le: "sum_sizes (survivors items) \<le> sum_sizes items"
  by (induction items) (simp_all add: sum_sizes_def survivors_def)

lemma committed_items_sum:
  assumes "committed_items b items"
  shows "sum_sizes items = m_committed b"
proof -
  have "m_committed b \<le> length (buffer_data b)"
    using assms by (simp add: committed_items_def)
  then have len: "length (take (m_committed b) (buffer_data b)) = m_committed b"
    by simp
  have "take (m_committed b) (buffer_data b) = concat (map item_data items)"
    using assms by (simp add: committed_items_def)
  then have "length (take (m_committed b) (buffer_data b)) = length (concat (map item_data items))"
    by (rule arg_cong)
  then show ?thesis using len sum_sizes_concat [of items] by simp
qed

lemma committed_items_empty:
  assumes "committed_items b items"
  shows "items = [] \<longleftrightarrow> m_committed b = 0"
proof
  assume "items = []"
  then show "m_committed b = 0"
    using committed_items_sum [OF assms] by (simp add: sum_sizes_def)
next
  assume z: "m_committed b = 0"
  show "items = []"
  proof (cases items)
    case Nil
    then show ?thesis .
  next
    case (Cons item rest)
    then have "0 < padded_size item" using assms by (simp add: committed_items_def)
    then have "0 < sum_sizes items" using Cons by (simp add: sum_sizes_def)
    then show ?thesis using committed_items_sum [OF assms] z by simp
  qed
qed

lemma purge_removed_entities:
  assumes "list_all item_entity items" "items \<noteq> []"
  shows "purge_removed items b =
      (b\<lparr>Buffer.m_data := Some (fst (snd (purge_loop items 0 0 (buffer_data b) []))),
         m_written := fst (purge_loop items 0 0 (buffer_data b) []),
         m_committed := fst (purge_loop items 0 0 (buffer_data b) [])\<rparr>,
       snd (snd (purge_loop items 0 0 (buffer_data b) [])))"
  using assms by (simp add: purge_removed_def advance_entities split: prod.splits)

lemma purge_removed_inv:
  assumes "buffer_inv b" "committed_items b items"
  shows "buffer_inv (fst (purge_removed items b))"
proof -
  obtain entities first where
    adv: "advance_to_next_item_of_right_type items 0 = (entities, first)"
    by (cases "advance_to_next_item_of_right_type items 0")
  show ?thesis
  proof (cases "entities = []")
    case True
    then show ?thesis using assms(1) adv by (simp add: purge_removed_def)
  next
    case False
    have "first + sum_sizes entities = m_committed b"
      using advance_sum [OF adv] committed_items_sum [OF assms(2)] by simp
    then have "fst (purge_loop entities first first (buffer_data b) []) \<le> m_committed b"
      using purge_loop_bound [of first first entities "buffer_data b" "[]"] by simp
    then show ?thesis
      using False adv assms(1) by (auto simp: purge_removed_def buffer_inv_def split: prod.splits)
  qed
qed

lemma reachable_inv: "reachable b \<Longrightarrow> buffer_inv b"
proof (induction rule: reachable.induct)
  case default_constructed
  then show ?case by (simp add: buffer_inv_def Buffer_default_def)
next
  case (external sz d b)
  then show ?case
    by (auto simp: buffer_inv_def Buffer_external_def split: if_splits)
next
  case (with_committed cap owned d com b)
  then show ?case
    by (auto simp: buffer_inv_def Buffer_with_committed_def split: if_splits)
next
  case (new cap ag)
  then show ?case
    using calculate_capacity_aligned [of cap] calculate_capacity_less [of cap]
    by (simp add: buffer_inv_def Buffer_new_def)
next
  case (move_target b)
  then show ?case by (simp add: Buffer_move_def)
next
  case (move_source b)
  then show ?case by (simp add: Buffer_move_def buffer_inv_def)
next
  case (reserved b n p b')
  then show ?case using reserve_space_inv by blast
next
  case (item_added b item p b')
  then show ?case using add_item_inv by blast
next
  case (committed b)
  then show ?case by (simp add: commit_def buffer_inv_def)
next
  case (rolled_back b)
  then show ?case by (simp add: rollback_def buffer_inv_def)
next
  case (cleared b)
  then show ?case by (simp add: clear_def buffer_inv_def)
next
  case (grown b n b')
  then show ?case using grow_result(1) by blast
next
  case (grown_internal b b')
  then show ?case using grow_internal_result(1) by blast
next
  case (purged b items)
  then show ?case using purge_removed_inv by blast
qed

lemma reserve_space_yes_unfold:
  assumes "m_memory b" "m_auto_grow b = auto_grow_yes"
    "m_capacity b < m_written b + n" "m_written b + n < 2 ^ 64"
  shows "reserve_space None n b =
     (case double_capacity (m_written b + n) (size_t (m_capacity b * 2)) of
        None \<Rightarrow> None
      | Some new_capacity \<Rightarrow>
          (case grow new_capacity b of
             Inl e \<Rightarrow> Some (Inl e)
           | Inr b3 \<Rightarrow> Some (Inr (m_written b3, b3\<lparr>m_written := size_t (m_written b3 + n)\<rparr>))))"
  using assms by (simp add: reserve_space_def size_t_id Let_def)

text \<open>
  Claim C8, as the code has it. On a buffer that owns its storage, has the policy
  \<^verbatim>\<open>auto_grow::yes\<close> and no callback, with an aligned capacity of at least
  \<open>min_capacity\<close>, a call \<open>reserve_space n\<close> with \<open>m_written + n\<close> above the capacity
  (and at most \<open>2 ^ 63\<close>, so that the doubling cannot wrap) returns, and the buffer is
  reallocated to the capacity doubled \<open>k\<close> times, where \<open>k \<ge> 1\<close> is the least number of
  doublings that makes room for \<open>m_written + n\<close> bytes; the old bytes are copied and
  \<open>m_written\<close> is advanced by \<open>n\<close>. The new capacity is a power of two only when the old
  one was.
\<close>

theorem reserve_space_grow_in_place:
  assumes inv: "buffer_inv b" and mem: "m_memory b" and ag: "m_auto_grow b = auto_grow_yes"
    and cap: "min_capacity \<le> m_capacity b" and len: "m_capacity b \<le> length (buffer_data b)"
    and big: "m_capacity b < m_written b + n" and nov: "m_written b + n \<le> 2 ^ 63"
  shows "\<exists>k b'. reserve_space None n b = Some (Inr (m_written b, b')) \<and>
           1 \<le> k \<and> m_capacity b' = m_capacity b * 2 ^ k \<and>
           m_written b + n \<le> m_capacity b * 2 ^ k \<and>
           m_capacity b * 2 ^ (k - 1) < m_written b + n \<and>
           take (m_capacity b) (buffer_data b') = take (m_capacity b) (buffer_data b) \<and>
           m_written b' = m_written b + n \<and> m_committed b' = m_committed b"
proof -
  let ?need = "m_written b + n"
  let ?c = "m_capacity b"
  have "(2::nat) ^ 63 < 2 ^ 64" by simp
  then have nov': "?need < 2 ^ 64" using nov by linarith
  have "?c * 2 < 2 * 2 ^ 63" using big nov by simp
  then have "?c * 2 < 2 ^ 64" by simp
  then have st: "size_t (?c * 2) = ?c * 2" by (rule size_t_id)
  have pos: "0 < ?c * 2" using cap by (simp add: min_capacity_def)
  from double_capacity_terminates [OF pos nov]
  obtain j where j: "double_capacity ?need (?c * 2) = Some (?c * 2 * 2 ^ j)"
    "?need \<le> ?c * 2 * 2 ^ j" "0 < j \<longrightarrow> ?c * 2 * 2 ^ (j - 1) < ?need"
    by blast
  let ?nc = "?c * 2 * 2 ^ j"
  have c8: "?c mod 8 = 0" using inv mem by (simp add: buffer_inv_def align_bytes_def)
  then have "?c * 2 mod 8 = 0" by presburger
  from double_capacity_result [OF j(1) this \<open>?c * 2 < 2 ^ 64\<close>]
  have nc: "?nc mod 8 = 0" "?nc < 2 ^ 64" by simp_all
  have "(1::nat) \<le> 2 ^ j" by simp
  then have "?c * 2 * 1 \<le> ?nc" by (rule mult_le_mono2)
  then have "?c + ?c \<le> ?nc" by (simp only: mult_1_right mult_2_right)
  moreover have "0 < ?c" using cap by (simp add: min_capacity_def)
  ultimately have ncbig: "?c < ?nc" "min_capacity \<le> ?nc" using cap by linarith+
  have cc: "calculate_capacity ?nc = ?nc"
    using ncbig(2) padded_length_id [OF nc] by (simp add: calculate_capacity_def)
  obtain b3 where b3: "grow ?nc b = Inr b3"
    using mem by (cases "grow ?nc b") (auto simp: grow_def Let_def split: if_splits)
  note g = grow_result [OF inv b3]
  have cap3: "m_capacity b3 = ?nc" using g(4) cc ncbig(1) by simp
  have w3: "size_t (m_written b3 + n) = ?need" using g(2) nov' by (simp add: size_t_id)
  have res: "reserve_space None n b = Some (Inr (m_written b, b3\<lparr>m_written := ?need\<rparr>))"
    using reserve_space_yes_unfold [OF mem ag big nov'] j(1) b3 w3 g(2) by (simp add: st)
  have low: "?c * 2 ^ (Suc j - 1) < ?need"
  proof (cases j)
    case 0
    then show ?thesis using big by simp
  next
    case (Suc i)
    then show ?thesis using j(3) by (simp add: mult.assoc)
  qed
  have "reserve_space None n b = Some (Inr (m_written b, b3\<lparr>m_written := ?need\<rparr>)) \<and>
           1 \<le> Suc j \<and> m_capacity (b3\<lparr>m_written := ?need\<rparr>) = ?c * 2 ^ Suc j \<and>
           ?need \<le> ?c * 2 ^ Suc j \<and>
           ?c * 2 ^ (Suc j - 1) < ?need \<and>
           take ?c (buffer_data (b3\<lparr>m_written := ?need\<rparr>)) = take ?c (buffer_data b) \<and>
           m_written (b3\<lparr>m_written := ?need\<rparr>) = ?need \<and>
           m_committed (b3\<lparr>m_written := ?need\<rparr>) = m_committed b"
    using res cap3 j(2) low g(3,8) len by (simp add: mult.assoc buffer_data_def)
  then show ?thesis by blast
qed

text \<open>The theorem at a fresh buffer of 64 bytes and a request of 100 bytes.\<close>

theorem reserve_space_grow_in_place_witness:
  "\<exists>k b'. reserve_space None 100 (Buffer_new 64 auto_grow_yes) = Some (Inr (0, b')) \<and>
       1 \<le> k \<and> m_capacity b' = 64 * 2 ^ k \<and> 100 \<le> (64::nat) * 2 ^ k \<and>
       (64::nat) * 2 ^ (k - 1) < 100 \<and> m_written b' = 100 \<and> m_committed b' = 0"
proof -
  let ?b = "Buffer_new 64 auto_grow_yes"
  have b: "m_capacity ?b = 64" "m_written ?b = 0" "m_committed ?b = 0" "m_memory ?b"
    "m_auto_grow ?b = auto_grow_yes" "length (buffer_data ?b) = 64"
    by (simp_all add: Buffer_new_def calculate_capacity_def min_capacity_def padded_length_def
        align_bytes_def size_t_def buffer_data_def new_bytes_def)
  have inv: "buffer_inv ?b" by (simp add: buffer_inv_def b align_bytes_def)
  have "\<exists>k b'. reserve_space None 100 ?b = Some (Inr (m_written ?b, b')) \<and>
           1 \<le> k \<and> m_capacity b' = m_capacity ?b * 2 ^ k \<and>
           m_written ?b + 100 \<le> m_capacity ?b * 2 ^ k \<and>
           m_capacity ?b * 2 ^ (k - 1) < m_written ?b + 100 \<and>
           take (m_capacity ?b) (buffer_data b') = take (m_capacity ?b) (buffer_data ?b) \<and>
           m_written b' = m_written ?b + 100 \<and> m_committed b' = m_committed ?b"
    by (rule reserve_space_grow_in_place [OF inv]) (simp_all add: b min_capacity_def)
  then show ?thesis unfolding b by (simp only: add_0) blast
qed

text \<open>
  The claim as stated fails: a buffer made with capacity 100 has capacity 104, and a
  request of 105 bytes grows it to 208 bytes, which is not the smallest power of two
  holding 105 bytes (128 is).
\<close>

theorem reserve_space_capacity_not_power_of_two:
  "map_option (map_sum id (\<lambda>(p, b). (p, m_capacity b, m_written b)))
     (reserve_space None 105 (Buffer_new 100 auto_grow_yes)) = Some (Inr (0, 208, 105))
   \<and> m_capacity (Buffer_new 100 auto_grow_yes) = 104
   \<and> (105::nat) \<le> 2 ^ 7 \<and> (2::nat) ^ 7 < 208 \<and> (208::nat) < 2 ^ 8"
  by (simp add: reserve_space_def Buffer_new_def calculate_capacity_def min_capacity_def
      padded_length_def align_bytes_def size_t_def grow_def double_capacity.simps new_bytes_def
      copy_n_def Let_def)

lemma old_new_offsets_old:
  "map fst (old_new_offsets items r w)
     = map (\<lambda>i. r + sum_sizes (take i items))
         (filter (\<lambda>i. \<not> item_removed (items ! i)) [0..<length items])"
proof (induction items arbitrary: r w)
  case Nil
  then show ?case by simp
next
  case (Cons item items)
  have upt: "[0..<length (item # items)] = 0 # map Suc [0..<length items]"
    by (simp add: upt_conv_Cons map_Suc_upt del: upt_Suc)
  have tl: "map (\<lambda>i. r + sum_sizes (take i (item # items)))
              (filter (\<lambda>i. \<not> item_removed ((item # items) ! i)) (map Suc [0..<length items]))
            = map (\<lambda>i. r + padded_size item + sum_sizes (take i items))
              (filter (\<lambda>i. \<not> item_removed (items ! i)) [0..<length items])"
    by (simp add: filter_map comp_def sum_sizes_def add.assoc)
  show ?case
  proof (cases "item_removed item")
    case True
    then show ?thesis
      using Cons.IH [of "r + padded_size item" w] tl by (simp only: upt) simp
  next
    case False
    then show ?thesis
      using Cons.IH [of "r + padded_size item" "w + padded_size item"] tl
      by (simp only: upt) (simp add: sum_sizes_def)
  qed
qed

text \<open>
  Claim C9, as the code has it, for a committed region that holds the records \<open>items\<close>,
  all of them entities. With nothing committed, \<open>purge_removed\<close> returns at once, changes
  nothing and calls nothing; otherwise \<open>m_written\<close> equals \<open>m_committed\<close> on completion
  and the callback is called, in buffer order, with the old and new offset of exactly the
  surviving records that move. In both cases \<open>m_committed\<close> ends as the sum of the padded
  sizes of the surviving records, the committed region holds the surviving records in
  their old order, old and new offsets of the surviving records both grow along the
  buffer, and every reported new offset is below the old one.
\<close>

theorem purge_removed_stable:
  assumes "committed_items b items" and "list_all item_entity items"
  shows "(m_committed b = 0 \<longrightarrow> purge_removed items b = (b, []))
     \<and> (m_committed b \<noteq> 0 \<longrightarrow>
          m_written (fst (purge_removed items b)) = m_committed (fst (purge_removed items b))
          \<and> snd (purge_removed items b)
               = filter (\<lambda>(old, new). old \<noteq> new) (old_new_offsets items 0 0))
     \<and> m_committed (fst (purge_removed items b)) = sum_sizes (survivors items)
     \<and> take (m_committed (fst (purge_removed items b))) (buffer_data (fst (purge_removed items b)))
          = concat (map item_data (survivors items))
     \<and> sorted_wrt (\<lambda>(old1, new1) (old2, new2). old1 \<le> old2 \<and> new1 \<le> new2)
          (old_new_offsets items 0 0)
     \<and> (\<forall>(old, new) \<in> set (snd (purge_removed items b)). new < old)"
proof -
  have sum: "sum_sizes items = m_committed b" using assms(1) by (rule committed_items_sum)
  have le: "sum_sizes (survivors items) \<le> sum_sizes items" by (rule sum_sizes_survivors_le)
  have mono: "sorted_wrt (\<lambda>(old1, new1) (old2, new2). old1 \<le> old2 \<and> new1 \<le> new2)
          (old_new_offsets items 0 0)"
    by (rule old_new_offsets_monotone) simp
  have lt: "new < old"
    if "(old, new) \<in> set (filter (\<lambda>(old, new). old \<noteq> new) (old_new_offsets items 0 0))"
    for old new
  proof -
    have "(old, new) \<in> set (old_new_offsets items 0 0)" "old \<noteq> new" using that by simp_all
    then show ?thesis using old_new_offsets_bounds [of 0 0 old new items] by simp
  qed
  show ?thesis
  proof (cases "m_committed b = 0")
    case True
    then have e: "items = []" using committed_items_empty [OF assms(1)] by simp
    show ?thesis using True e by (simp add: purge_removed_def survivors_def sum_sizes_def)
  next
    case False
    then have ne: "items \<noteq> []" using committed_items_empty [OF assms(1)] by simp
    have lay: "take (sum_sizes items) (drop 0 (buffer_data b)) = concat (map item_data items)"
      using assms(1) sum by (simp add: committed_items_def)
    have room: "0 + sum_sizes items \<le> length (buffer_data b)"
      using assms(1) sum by (simp add: committed_items_def)
    note m = purge_loop_memory [OF le0 room lay assms(2), of "[]"]
    note res = purge_removed_entities [OF assms(2) ne, of b]
    have w: "fst (purge_loop items 0 0 (buffer_data b) []) = sum_sizes (survivors items)"
      using purge_loop_write [OF assms(2), of 0 0 "buffer_data b" "[]"] by simp
    have c: "snd (snd (purge_loop items 0 0 (buffer_data b) []))
              = filter (\<lambda>(old, new). old \<noteq> new) (old_new_offsets items 0 0)"
      using purge_loop_calls [OF assms(2), of 0 0 "buffer_data b" "[]"] by simp
    have d: "buffer_data (fst (purge_removed items b)) = fst (snd (purge_loop items 0 0 (buffer_data b) []))"
      by (simp add: res buffer_data_def)
    have n: "m_written (fst (purge_removed items b)) = sum_sizes (survivors items)"
      "m_committed (fst (purge_removed items b)) = sum_sizes (survivors items)"
      "snd (purge_removed items b) = filter (\<lambda>(old, new). old \<noteq> new) (old_new_offsets items 0 0)"
      by (simp_all add: res w c)
    have t: "take (sum_sizes (survivors items)) (fst (snd (purge_loop items 0 0 (buffer_data b) [])))
               = concat (map item_data (survivors items))"
      using m by simp
    show ?thesis unfolding n d using False mono lt t by blast
  qed
qed

text \<open>The theorem at the example buffer: the third record moves from offset 16 to 8.\<close>

theorem purge_removed_stable_witness:
  "committed_items purge_example_buffer purge_example_items
   \<and> list_all item_entity purge_example_items
   \<and> snd (purge_removed purge_example_items purge_example_buffer) = [(16, 8)]
   \<and> m_committed (fst (purge_removed purge_example_items purge_example_buffer)) = 16
   \<and> m_written (fst (purge_removed purge_example_items purge_example_buffer)) = 16
   \<and> take 16 (buffer_data (fst (purge_removed purge_example_items purge_example_buffer)))
        = [1, 0, 0, 0, 0, 0, 0, 0] @ [3, 0, 0, 0, 0, 0, 0, 0]"
proof -
  have c: "committed_items purge_example_buffer purge_example_items"
    by (simp add: committed_items_def purge_example_buffer_def purge_example_items_def
        buffer_data_def padded_size_def)
  have e: "list_all item_entity purge_example_items"
    by (simp add: purge_example_items_def)
  have s: "sum_sizes (survivors purge_example_items) = 16"
    "old_new_offsets purge_example_items 0 0 = [(0, 0), (16, 8)]"
    "concat (map item_data (survivors purge_example_items))
       = [1, 0, 0, 0, 0, 0, 0, 0] @ [3, 0, 0, 0, 0, 0, 0, 0]"
    "m_committed purge_example_buffer \<noteq> 0"
    by (simp_all add: sum_sizes_def survivors_def purge_example_items_def padded_size_def
        purge_example_buffer_def)
  show ?thesis using purge_removed_stable [OF c e] c e by (auto simp: s)
qed

text \<open>
  The claim as stated fails: after reserving 8 bytes in a fresh buffer and committing
  nothing, \<open>purge_removed\<close> leaves \<open>m_written = 8\<close> and \<open>m_committed = 0\<close>.
\<close>

theorem purge_removed_keeps_uncommitted_tail:
  "reserve_space None 8 (Buffer_new 64 auto_grow_yes)
     = Some (Inr (0, (Buffer_new 64 auto_grow_yes)\<lparr>m_written := 8\<rparr>))
   \<and> committed_items ((Buffer_new 64 auto_grow_yes)\<lparr>m_written := 8\<rparr>) []
   \<and> m_written (fst (purge_removed [] ((Buffer_new 64 auto_grow_yes)\<lparr>m_written := 8\<rparr>))) = 8
   \<and> m_committed (fst (purge_removed [] ((Buffer_new 64 auto_grow_yes)\<lparr>m_written := 8\<rparr>))) = 0"
  by (simp add: reserve_space_def purge_removed_def committed_items_def Buffer_new_def
      calculate_capacity_def min_capacity_def padded_length_def
      align_bytes_def size_t_def buffer_data_def new_bytes_def Let_def)

text \<open>
  Records that are no entities are left out of the statement above. The read iterator
  passes over them while the write iterator does not: in a committed region of an entity
  followed by a record of another type, neither of them removed, the second record is
  dropped from the committed region.
\<close>

lemma purge_removed_other_record:
  "purge_removed
     [\<lparr>item_data = [1, 0, 0, 0, 0, 0, 0, 0], item_removed = False, item_entity = True\<rparr>,
      \<lparr>item_data = [2, 0, 0, 0, 0, 0, 0, 0], item_removed = False, item_entity = False\<rparr>]
     \<lparr>m_next_buffer = [], m_memory = False,
      Buffer.m_data = Some ([1, 0, 0, 0, 0, 0, 0, 0] @ [2, 0, 0, 0, 0, 0, 0, 0]),
      m_capacity = 16, m_written = 16, m_committed = 16, m_auto_grow = auto_grow_no\<rparr>
   = (\<lparr>m_next_buffer = [], m_memory = False,
       Buffer.m_data = Some ([1, 0, 0, 0, 0, 0, 0, 0] @ [2, 0, 0, 0, 0, 0, 0, 0]),
       m_capacity = 16, m_written = 8, m_committed = 8, m_auto_grow = auto_grow_no\<rparr>, [])"
  by (simp add: purge_removed_def purge_loop.simps padded_size_def buffer_data_def)

text \<open>
  The invariant on \<open>written\<close>, \<open>committed\<close> and \<open>capacity\<close>: every state reachable
  through the constructors, \<open>reserve_space\<close>, \<open>add_item\<close>, \<open>commit\<close>, \<open>rollback\<close>,
  \<open>clear\<close>, \<open>grow\<close>, \<open>grow_internal\<close>, \<open>purge_removed\<close> and moves satisfies
  \<open>committed \<le> written\<close> and \<open>committed \<le> capacity\<close>, as long as no request to
  \<open>reserve_space\<close> or \<open>add_item\<close> makes \<open>m_written + n\<close> wrap around \<open>2 ^ 64\<close>.
\<close>

lemma reachable_written_committed_capacity:
  assumes "reachable b"
  shows "m_committed b \<le> m_written b \<and> m_committed b \<le> m_capacity b"
  using reachable_inv [OF assms] by (simp add: buffer_inv_def)

text \<open>
  Claim C7. The invariant \<open>written \<ge> committed\<close> is broken by \<open>reserve_space\<close> itself.
  Its test \<^verbatim>\<open>m_written + size > m_capacity\<close> is computed in \<^verbatim>\<open>std::size_t\<close>: in a fresh
  buffer of capacity 64 with 8 bytes reserved and committed, \<open>reserve_space (2 ^ 64 - 1)\<close>
  finds \<open>m_written + size\<close> wrapped around to 7, which fits, neither grows the buffer nor
  throws, and returns with \<open>m_written = 7\<close> below \<open>m_committed = 8\<close>.
\<close>

theorem reserve_space_wraps_written:
  "reserve_space None 8 (Buffer_new 64 auto_grow_yes)
     = Some (Inr (0, (Buffer_new 64 auto_grow_yes)\<lparr>m_written := 8\<rparr>))
   \<and> reserve_space None (2 ^ 64 - 1) (snd (commit ((Buffer_new 64 auto_grow_yes)\<lparr>m_written := 8\<rparr>)))
     = Some (Inr (8, (Buffer_new 64 auto_grow_yes)\<lparr>m_written := 7, m_committed := 8\<rparr>))
   \<and> m_written ((Buffer_new 64 auto_grow_yes)\<lparr>m_written := 7, m_committed := 8\<rparr>)
       < m_committed ((Buffer_new 64 auto_grow_yes)\<lparr>m_written := 7, m_committed := 8\<rparr>)"
  by (simp add: reserve_space_def commit_def Buffer_new_def calculate_capacity_def
      min_capacity_def padded_length_def align_bytes_def size_t_def Let_def)

text \<open>
  The state that the theorem gives: the second request returns a buffer in which
  \<open>m_written\<close> is below \<open>m_committed\<close>.
\<close>

theorem reserve_space_wraps_written_witness:
  "\<exists>b. reserve_space None (2 ^ 64 - 1)
          (snd (commit ((Buffer_new 64 auto_grow_yes)\<lparr>m_written := 8\<rparr>))) = Some (Inr (8, b))
       \<and> m_written b < m_committed b"
  using reserve_space_wraps_written by simp

text \<open>
  Claim C10. On a default-constructed buffer \<open>capacity\<close>, \<open>committed\<close> and \<open>written\<close>
  return 0, the conversion to \<^verbatim>\<open>bool\<close> gives false, and \<open>clear\<close> returns 0 and leaves the
  buffer as it was. None of the four touches \<^verbatim>\<open>Buffer.m_data\<close>, so they are defined on the
  invalid buffer.
\<close>

theorem invalid_buffer_observers:
  "capacity Buffer_default = 0 \<and> committed Buffer_default = 0 \<and> written Buffer_default = 0
   \<and> \<not> operator_bool Buffer_default \<and> clear Buffer_default = (0, Buffer_default)"
  by (simp add: capacity_def committed_def written_def operator_bool_def clear_def
      Buffer_default_def)

section \<open>Properties of the parser\<close>

subsection \<open>Refilling the input\<close>

lemma bytes_left_in_order:
  assumes "pointers_in_order p"
  shows "bytes_left p = length (m_mem p) - m_data p"
proof -
  have le: "m_data p \<le> length (m_mem p)" and lt: "length (m_mem p) < 2 ^ 64"
    using assms by (auto simp: pointers_in_order_def)
  have "int (length (m_mem p)) - int (m_data p) = int (length (m_mem p) - m_data p)"
    using le by simp
  moreover have "int (length (m_mem p) - m_data p) < 2 ^ 64"
    using lt by (metis diff_le_self le_less_trans of_nat_less_numeral_power_cancel_iff)
  ultimately have "(int (length (m_mem p)) - int (m_data p)) mod 2 ^ 64
                     = int (length (m_mem p) - m_data p)"
    by (simp only: mod_pos_pos_trivial of_nat_0_le_iff)
  then show ?thesis by (simp only: bytes_left_def m_end_def nat_int)
qed

lemma decodes_alike_refl: "decodes_alike p p"
  by (simp add: decodes_alike_def)

lemma decodes_alike_trans: "decodes_alike p q \<Longrightarrow> decodes_alike q r \<Longrightarrow> decodes_alike p r"
  by (simp add: decodes_alike_def)

lemma refill_enough:
  "need \<le> length (m_input q) + length (input_stream q) \<Longrightarrow>
   \<exists>q'. refill need q = (True, q') \<and> \<not> m_moved q' \<and> m_mem q' = m_input q' \<and> m_data q' = 0
        \<and> m_input q' @ input_stream q' = m_input q @ input_stream q
        \<and> need \<le> length (m_input q') \<and> decodes_alike q q'"
proof (induction need q rule: refill.induct)
  case (1 need q)
  show ?case
  proof (cases "length (m_input q) < need")
    case False
    then show ?thesis
      by (subst refill.simps) (simp add: input_stream_def decodes_alike_def)
  next
    case True
    then have "input_stream q \<noteq> []" using 1 (2) by auto
    then obtain c qs where q: "\<not> input_done q" "input_queue q = c # qs" "c \<noteq> []"
      by (cases "input_queue q") (auto simp: input_stream_def split: if_splits)
    let ?q1 = "q\<lparr>input_queue := qs, input_done := False\<rparr>"
    have g: "get_input q = (c, ?q1)" using q by (simp add: get_input_def)
    let ?q2 = "string_append c ?q1"
    have s: "m_input ?q2 @ input_stream ?q2 = m_input q @ input_stream q"
      using q by (simp add: string_append_def input_stream_def)
    then have "length (m_input ?q2) + length (input_stream ?q2)
                 = length (m_input q) + length (input_stream q)"
      by (metis length_append)
    then have bd: "need \<le> length (m_input ?q2) + length (input_stream ?q2)"
      using 1 (2) by simp
    have nd: "\<not> input_done ?q1" by simp
    from 1 (1) [OF True g [symmetric] nd bd]
    obtain q' where q': "refill need ?q2 = (True, q')" "\<not> m_moved q'" "m_mem q' = m_input q'"
      "m_data q' = 0" "m_input q' @ input_stream q' = m_input ?q2 @ input_stream ?q2"
      "need \<le> length (m_input q')" "decodes_alike ?q2 q'"
      by auto
    have "refill need q = (True, q')"
      using True g q' (1) by (subst refill.simps) simp
    moreover have "decodes_alike q q'"
      using q' (7) by (simp add: decodes_alike_def string_append_def)
    ultimately show ?thesis using q' s by auto
  qed
qed

lemma refill_short:
  "length (m_input q) + length (input_stream q) < need \<Longrightarrow>
   \<exists>q'. refill need q = (False, q') \<and> decodes_alike q q'"
proof (induction need q rule: refill.induct)
  case (1 need q)
  have short: "length (m_input q) < need" using 1 (2) by simp
  obtain data q1 where g: "get_input q = (data, q1)" by (cases "get_input q")
  show ?case
  proof (cases "input_done q1")
    case True
    have "decodes_alike q q1"
      using g by (auto simp: get_input_def decodes_alike_def split: if_splits list.splits)
    then show ?thesis using short g True by (subst refill.simps) simp
  next
    case False
    then obtain qs where q: "\<not> input_done q" "input_queue q = data # qs" "data \<noteq> []"
      "q1 = q\<lparr>input_queue := qs, input_done := False\<rparr>"
      using g by (auto simp: get_input_def split: if_splits list.splits)
    let ?q2 = "string_append data q1"
    have "m_input ?q2 @ input_stream ?q2 = m_input q @ input_stream q"
      using q by (simp add: string_append_def input_stream_def)
    then have "length (m_input ?q2) + length (input_stream ?q2)
                 = length (m_input q) + length (input_stream q)"
      by (metis length_append)
    then have "length (m_input ?q2) + length (input_stream ?q2) < need" using 1 (2) by simp
    from 1 (1) [OF short g [symmetric] False this]
    obtain q' where q': "refill need ?q2 = (False, q')" "decodes_alike ?q2 q'" by auto
    have "refill need q = (False, q')"
      using short g False q' (1) by (subst refill.simps) simp
    moreover have "decodes_alike q q'"
      using q' (2) q by (simp add: decodes_alike_def string_append_def)
    ultimately show ?thesis by auto
  qed
qed

lemma pending_input_in_order:
  "pointers_in_order p \<Longrightarrow> pending_input p = drop (m_data p) (m_input p) @ input_stream p"
  by (simp add: pending_input_def pointers_in_order_def)

lemma string_erase_fields:
  "m_input (string_erase n p) = drop n (m_input p)"
  "input_stream (string_erase n p) = input_stream p"
  "decodes_alike p (string_erase n p)"
  by (simp_all add: string_erase_def Let_def input_stream_def decodes_alike_def)

lemma pointers_in_order_advance:
  "pointers_in_order p \<Longrightarrow> m_data p + n \<le> length (m_mem p) \<Longrightarrow>
   pointers_in_order (p\<lparr>m_data := m_data p + n\<rparr>)"
  by (auto simp: pointers_in_order_def input_stream_def)

lemma pending_input_advance:
  "pending_input p = xs \<Longrightarrow> n \<le> length (m_mem p) - m_data p \<Longrightarrow>
   pending_input (p\<lparr>m_data := m_data p + n\<rparr>) = drop n xs"
  by (auto simp: pending_input_def input_stream_def add.commute)

lemma ensure_bytes_available_enough:
  assumes o: "pointers_in_order p" and n: "need \<le> length (pending_input p)"
  shows "\<exists>p'. ensure_bytes_available need p = Inr (True, p') \<and> pointers_in_order p'
           \<and> pending_input p' = pending_input p \<and> decodes_alike p p'
           \<and> need \<le> length (m_mem p') - m_data p'"
proof (cases "need \<le> bytes_left p")
  case True
  then show ?thesis
    using o bytes_left_in_order [OF o]
    by (auto simp: ensure_bytes_available_def decodes_alike_refl)
next
  case False
  then have short: "length (m_mem p) - m_data p < need"
    using bytes_left_in_order [OF o] by simp
  have mem: "m_mem p = m_input p" "\<not> m_moved p" "m_data p \<le> length (m_input p)"
    using o by (auto simp: pointers_in_order_def)
  have pend: "pending_input p = drop (m_data p) (m_input p) @ input_stream p"
    using o by (rule pending_input_in_order)
  have nd: "\<not> (input_done p \<and> length (m_input p) < need)"
  proof
    assume "input_done p \<and> length (m_input p) < need"
    then have "input_stream p = []" by (simp add: input_stream_def)
    then show False using n pend short mem by simp
  qed
  let ?q = "string_erase (m_data p) p"
  have "need \<le> length (m_input ?q) + length (input_stream ?q)"
    using n pend by (simp add: string_erase_fields)
  from refill_enough [OF this]
  obtain p' where p': "refill need ?q = (True, p')" "\<not> m_moved p'" "m_mem p' = m_input p'"
      "m_data p' = 0" "m_input p' @ input_stream p' = m_input ?q @ input_stream ?q"
      "need \<le> length (m_input p')" "decodes_alike ?q p'"
    by auto
  have e: "ensure_bytes_available need p = Inr (True, p')"
    using False nd mem p' (1) by (auto simp: ensure_bytes_available_def)
  have same: "pending_input p' = pending_input p"
    using p' pend by (simp add: pending_input_def string_erase_fields)
  have "length (m_mem p') + length (input_stream p')
          = length (drop (m_data p) (m_input p)) + length (input_stream p)"
    using p' (3,5) by (metis length_append string_erase_fields(1,2))
  then have "length (m_mem p') + length (input_stream p') < 2 ^ 64"
    using o mem by (simp add: pointers_in_order_def)
  then have o': "pointers_in_order p'"
    using p' by (simp add: pointers_in_order_def)
  have "decodes_alike p p'"
    using decodes_alike_trans [OF string_erase_fields(3) p' (7)] .
  then show ?thesis using e o' same p' by auto
qed

lemma ensure_bytes_available_short:
  assumes o: "pointers_in_order p" and n: "length (pending_input p) < need"
  shows "\<exists>p'. ensure_bytes_available need p = Inr (False, p') \<and> decodes_alike p p'"
proof -
  have mem: "m_mem p = m_input p" "\<not> m_moved p" "m_data p \<le> length (m_input p)"
    using o by (auto simp: pointers_in_order_def)
  have pend: "pending_input p = drop (m_data p) (m_input p) @ input_stream p"
    using o by (rule pending_input_in_order)
  have short: "\<not> need \<le> bytes_left p"
    using bytes_left_in_order [OF o] n pend mem by simp
  show ?thesis
  proof (cases "input_done p \<and> length (m_input p) < need")
    case True
    then show ?thesis using short by (auto simp: ensure_bytes_available_def decodes_alike_refl)
  next
    case False
    let ?q = "string_erase (m_data p) p"
    have "length (m_input ?q) + length (input_stream ?q) < need"
      using n pend by (simp add: string_erase_fields)
    from refill_short [OF this]
    obtain p' where p': "refill need ?q = (False, p')" "decodes_alike ?q p'" by auto
    have "ensure_bytes_available need p = Inr (False, p')"
      using False short mem p' (1) by (auto simp: ensure_bytes_available_def)
    moreover have "decodes_alike p p'"
      using decodes_alike_trans [OF string_erase_fields(3) p' (2)] .
    ultimately show ?thesis by auto
  qed
qed

subsection \<open>The file header\<close>

lemma strncmp_diff: "(uint (a::byte) - uint b = 0) = (a = b)"
  by (auto simp: word_uint_eq_iff)

lemma strncmp_step:
  "strncmp (x # xs) (y # ys) (Suc n) = 0 \<longleftrightarrow> x = y \<and> (x = 0 \<or> strncmp xs ys n = 0)"
proof -
  have "uint x = uint y \<longleftrightarrow> x = y" by (simp add: word_uint_eq_iff)
  then show ?thesis by (auto simp: Let_def)
qed

lemma strncmp_step_numeral:
  "strncmp (x # xs) (y # ys) (numeral k) = 0 \<longleftrightarrow>
     x = y \<and> (x = 0 \<or> strncmp xs ys (pred_numeral k) = 0)"
  by (simp only: numeral_eq_Suc strncmp_step)

lemma strncmp_step_one:
  "strncmp (x # xs) (y # ys) 1 = 0 \<longleftrightarrow> x = y"
  using strncmp_step [of x xs y ys 0] by auto

lemma strncmp_header_magic:
  "strncmp header_magic (a # b # c # d # e # rest) 5 = 0 \<longleftrightarrow>
     [a, b, c, d, e] = header_magic"
  by (auto simp: header_magic_def strncmp_step_numeral strncmp_step simp del: strncmp.simps(2))

lemma length_header_magic: "length header_magic = 5"
  by (simp add: header_magic_def)

lemma numeral_le_length:
  "numeral k \<le> length xs \<longleftrightarrow> (\<exists>x ys. xs = x # ys \<and> pred_numeral k \<le> length ys)"
  by (simp add: numeral_eq_Suc Suc_le_length_iff)

lemma at_least_seven:
  assumes "7 \<le> length (s :: byte list)"
  shows "\<exists>a b c d e f g rest. s = a # b # c # d # e # f # g # rest"
  using assms by (auto simp: numeral_le_length Suc_le_length_iff)

lemma drop_add_eq: "drop d xs = ys \<Longrightarrow> drop (d + n) xs = drop n ys"
  by (metis add.commute drop_drop)

lemma check_header_magic_view:
  assumes "\<not> m_moved p" "drop (m_data p) (m_mem p) = a # b # c # d # e # rest"
  shows "check_header_magic p =
           (if [a, b, c, d, e] = header_magic then Inr (p\<lparr>m_data := m_data p + 5\<rparr>)
            else Inl (o5m_error ''wrong header magic''))"
  using assms
  by (simp add: check_header_magic_def input_view_def length_header_magic strncmp_header_magic)

lemma check_file_type_view:
  assumes "\<not> m_moved p" "drop (m_data p) (m_mem p) = c # rest"
  shows "check_file_type p =
           (if c = 0x6D \<or> c = 0x63
            then Inr (p\<lparr>m_header := (m_header p)\<lparr>has_multiple_object_versions := (c = 0x63)\<rparr>,
                        m_data := m_data p + 1\<rparr>)
            else Inl (o5m_error ''wrong header magic''))"
  using assms by (auto simp: check_file_type_def input_view_def)

lemma check_file_format_version_view:
  assumes "\<not> m_moved p" "drop (m_data p) (m_mem p) = c # rest"
  shows "check_file_format_version p =
           (if c = 0x32 then Inr (p\<lparr>m_data := m_data p + 1\<rparr>)
            else Inl (o5m_error ''wrong header magic''))"
  using assms by (simp add: check_file_format_version_def input_view_def)

lemma header_checks:
  assumes "\<not> m_moved p0" "drop (m_data p0) (m_mem p0) = a # b # c # d # e # f # g # rest"
  shows "(case check_header_magic p0 of
            Inl e \<Rightarrow> Inl e
          | Inr p1 \<Rightarrow>
              (case check_file_type p1 of
                 Inl e \<Rightarrow> Inl e
               | Inr p2 \<Rightarrow> check_file_format_version p2))
         = (if [a, b, c, d, e] = header_magic \<and> (f = 0x6D \<or> f = 0x63) \<and> g = 0x32
            then Inr (p0\<lparr>m_header := (m_header p0)\<lparr>has_multiple_object_versions := (f = 0x63)\<rparr>,
                         m_data := m_data p0 + 7\<rparr>)
            else Inl (o5m_error ''wrong header magic''))"
proof -
  define p1 where "p1 = p0\<lparr>m_data := m_data p0 + 5\<rparr>"
  define p2 where
    "p2 = p1\<lparr>m_header := (m_header p1)\<lparr>has_multiple_object_versions := (f = 0x63)\<rparr>,
              m_data := m_data p1 + 1\<rparr>"
  define p3 where "p3 = p2\<lparr>m_data := m_data p2 + 1\<rparr>"
  have d5: "drop (m_data p0 + 5) (m_mem p0) = f # g # rest"
    unfolding drop_add_eq [OF assms(2)] by simp
  have d6: "drop (m_data p0 + 5 + 1) (m_mem p0) = g # rest"
    unfolding drop_add_eq [OF d5] by simp
  have m: "check_header_magic p0 =
             (if [a, b, c, d, e] = header_magic then Inr p1
              else Inl (o5m_error ''wrong header magic''))"
    unfolding p1_def using assms by (rule check_header_magic_view)
  have v1: "\<not> m_moved p1" "drop (m_data p1) (m_mem p1) = f # g # rest"
    using assms(1) d5 by (simp_all add: p1_def)
  have t: "check_file_type p1 =
             (if f = 0x6D \<or> f = 0x63 then Inr p2 else Inl (o5m_error ''wrong header magic''))"
    unfolding p2_def using v1 by (rule check_file_type_view)
  have v2: "\<not> m_moved p2" "drop (m_data p2) (m_mem p2) = g # rest"
    using assms(1) d6 by (simp_all add: p2_def p1_def)
  have f: "check_file_format_version p2 =
             (if g = 0x32 then Inr p3 else Inl (o5m_error ''wrong header magic''))"
    unfolding p3_def using v2 by (rule check_file_format_version_view)
  have r: "p3 = p0\<lparr>m_header := (m_header p0)\<lparr>has_multiple_object_versions := (f = 0x63)\<rparr>,
                    m_data := m_data p0 + 7\<rparr>"
    by (simp add: p3_def p2_def p1_def)
  have "(case check_header_magic p0 of
            Inl e \<Rightarrow> Inl e
          | Inr p1 \<Rightarrow>
              (case check_file_type p1 of
                 Inl e \<Rightarrow> Inl e
               | Inr p2 \<Rightarrow> check_file_format_version p2))
         = (if [a, b, c, d, e] = header_magic \<and> (f = 0x6D \<or> f = 0x63) \<and> g = 0x32
            then Inr p3 else Inl (o5m_error ''wrong header magic''))"
    by (simp add: m t f)
  then show ?thesis unfolding r .
qed

text \<open>
  Claim C2, for a parser whose pointers are in order. \<open>decode_header\<close> succeeds exactly
  when the input still to be read starts with the seven bytes FF E0 04 6F 35 (\<open>o5\<close>), then
  6D (\<open>m\<close>) or 63 (\<open>c\<close>), then 32 (\<open>2\<close>); every other input, also one of fewer than seven
  bytes, ends in an \<open>o5m_error\<close>; on success the header flag
  \<open>has_multiple_object_versions\<close> is true for \<open>c\<close> and false for \<open>m\<close>, the seven bytes are
  consumed and the pointers are in order again.
\<close>

theorem decode_header_spec:
  assumes "pointers_in_order p"
  shows
   "((\<exists>p'. decode_header p = Inr p') \<longleftrightarrow>
      (\<exists>v rest. pending_input p = [0xFF, 0xE0, 0x04, 0x6F, 0x35, v, 0x32] @ rest
                \<and> (v = 0x6D \<or> v = 0x63)))
    \<and> ((\<nexists>p'. decode_header p = Inr p') \<longrightarrow> (\<exists>msg. decode_header p = Inl (o5m_error msg)))
    \<and> (\<forall>p'. decode_header p = Inr p' \<longrightarrow>
          has_multiple_object_versions (m_header p') = (pending_input p ! 5 = 0x63) \<and>
          (pending_input p ! 5 = 0x63 \<or> pending_input p ! 5 = 0x6D) \<and>
          pending_input p' = drop 7 (pending_input p) \<and> pointers_in_order p')"
proof (cases "7 \<le> length (pending_input p)")
  case False
  then obtain p0 where "ensure_bytes_available 7 p = Inr (False, p0)"
    using ensure_bytes_available_short [OF assms, of 7] by auto
  then have short: "decode_header p = Inl (o5m_error ''file too short (incomplete header info)'')"
    by (simp add: decode_header_def)
  have "pending_input p \<noteq> [0xFF, 0xE0, 0x04, 0x6F, 0x35, v, 0x32] @ rest" for v rest
    using False by auto
  then show ?thesis using short by auto
next
  case True
  then obtain p0 where p0: "ensure_bytes_available 7 p = Inr (True, p0)" "pointers_in_order p0"
      "pending_input p0 = pending_input p" "7 \<le> length (m_mem p0) - m_data p0"
    using ensure_bytes_available_enough [OF assms, of 7] by auto
  have "7 \<le> length (drop (m_data p0) (m_mem p0))" using p0 (4) by simp
  then obtain a b c d e f g rest where
    v: "drop (m_data p0) (m_mem p0) = a # b # c # d # e # f # g # rest"
    using at_least_seven by blast
  have nm: "\<not> m_moved p0" using p0 (2) by (simp add: pointers_in_order_def)
  have pend: "pending_input p = a # b # c # d # e # f # g # rest @ input_stream p0"
    using p0 (3) v by (simp add: pending_input_def)
  let ?p' = "p0\<lparr>m_header := (m_header p0)\<lparr>has_multiple_object_versions := (f = 0x63)\<rparr>,
                m_data := m_data p0 + 7\<rparr>"
  have dh: "decode_header p =
     (if [a, b, c, d, e] = header_magic \<and> (f = 0x6D \<or> f = 0x63) \<and> g = 0x32
      then Inr ?p' else Inl (o5m_error ''wrong header magic''))"
    using p0 (1) header_checks [OF nm v] by (simp add: decode_header_def)
  have d7: "drop (m_data p0 + 7) (m_mem p0) = rest"
    using drop_add_eq [OF v, of 7] by simp
  have pend': "pending_input ?p' = rest @ input_stream p0"
    using d7 by (simp add: pending_input_def input_stream_def)
  have "m_data p0 + 7 \<le> length (m_mem p0)" using p0 (4) by simp
  then have "pointers_in_order (p0\<lparr>m_data := m_data p0 + 7\<rparr>)"
    by (rule pointers_in_order_advance [OF p0 (2)])
  moreover have "pointers_in_order ?p' = pointers_in_order (p0\<lparr>m_data := m_data p0 + 7\<rparr>)"
    by (simp add: pointers_in_order_def input_stream_def)
  ultimately have o': "pointers_in_order ?p'" by simp
  show ?thesis unfolding dh pend using pend' o' by (auto simp: header_magic_def)
qed

subsection \<open>What the decoders of a dataset leave alone\<close>

lemma same_frame_refl: "same_frame p p"
  by (simp add: same_frame_def)

lemma same_frame_trans: "same_frame p p' \<Longrightarrow> same_frame p' p'' \<Longrightarrow> same_frame p p''"
  by (simp add: same_frame_def)

lemma same_frame_updates:
  "same_frame p (p\<lparr>m_delta_id := a\<rparr>)"
  "same_frame p (p\<lparr>m_delta_timestamp := a\<rparr>)"
  "same_frame p (p\<lparr>m_delta_changeset := a\<rparr>)"
  "same_frame p (p\<lparr>m_delta_lon := a\<rparr>)"
  "same_frame p (p\<lparr>m_delta_lat := a\<rparr>)"
  "same_frame p (p\<lparr>m_delta_way_node_id := a\<rparr>)"
  "same_frame p (p\<lparr>m_delta_member_ids := f\<rparr>)"
  "same_frame p (p\<lparr>m_reference_table := t\<rparr>)"
  by (simp_all add: same_frame_def)

lemma decode_info_frame:
  assumes "decode_info p object dataptr = Inr (p', object', user, dataptr')"
  shows "same_frame p p'"
    "obj_id object' = obj_id object" "obj_visible object' = obj_visible object"
    "obj_tags object' = obj_tags object" "obj_user object' = obj_user object"
    "OSMObject.more object' = OSMObject.more object"
  using assms
  by (auto simp: decode_info_def Let_def same_frame_def
      split: list.splits if_splits sum.splits prod.splits)

lemma decode_node_unfold:
  assumes "zvarint data = Inr (d, data1)"
    and "decode_info (p\<lparr>m_delta_id := m_delta_id p + d\<rparr>)
           (new_node\<lparr>obj_id := m_delta_id p + d\<rparr>) data1 = Inr (p2, object, user, data2)"
  shows "decode_node p data =
     (if data2 = []
      then Inr (p2, object\<lparr>obj_user := user, obj_visible := False,
                           node_location := Location_invalid\<rparr>)
      else (case zvarint data2 of
              Inl e \<Rightarrow> Inl e
            | Inr (dlon, data3) \<Rightarrow>
                (case zvarint data3 of
                   Inl e \<Rightarrow> Inl e
                 | Inr (dlat, data4) \<Rightarrow>
                     (case decode_tags_if_any (m_reference_table p2) data4 of
                        Inl e \<Rightarrow> Inl e
                      | Inr (tags, table) \<Rightarrow>
                          Inr (p2\<lparr>m_delta_lon := m_delta_lon p2 + dlon,
                                  m_delta_lat := m_delta_lat p2 + dlat,
                                  m_reference_table := table\<rparr>,
                               object\<lparr>obj_user := user,
                                      node_location :=
                                        Location (ucast (m_delta_lon p2 + dlon))
                                                 (ucast (m_delta_lat p2 + dlat)),
                                      obj_tags := tags\<rparr>)))))"
  using assms by (simp add: decode_node_def Let_def split: sum.splits prod.splits)

lemma decode_node_frame:
  assumes "decode_node p data = Inr (p', node)"
  shows "same_frame p p'"
proof -
  obtain d data1 where z: "zvarint data = Inr (d, data1)"
    using assms by (cases "zvarint data") (auto simp: decode_node_def)
  obtain p2 object user data2 where
    i: "decode_info (p\<lparr>m_delta_id := m_delta_id p + d\<rparr>)
           (new_node\<lparr>obj_id := m_delta_id p + d\<rparr>) data1 = Inr (p2, object, user, data2)"
    using assms z
    by (cases "decode_info (p\<lparr>m_delta_id := m_delta_id p + d\<rparr>)
           (new_node\<lparr>obj_id := m_delta_id p + d\<rparr>) data1")
       (auto simp: decode_node_def Let_def)
  have f2: "same_frame p p2"
    using decode_info_frame(1) [OF i] by (simp add: same_frame_def)
  show ?thesis
  proof (cases "data2 = []")
    case True
    then show ?thesis using assms f2 unfolding decode_node_unfold [OF z i] by simp
  next
    case False
    then obtain lon lat table where
      "p' = p2\<lparr>m_delta_lon := lon, m_delta_lat := lat, m_reference_table := table\<rparr>"
      using assms unfolding decode_node_unfold [OF z i]
      by (simp split: sum.splits prod.splits) blast
    then show ?thesis using f2 by (simp add: same_frame_def)
  qed
qed

lemma decode_way_unfold:
  assumes "zvarint data = Inr (d, data1)"
    and "decode_info (p\<lparr>m_delta_id := m_delta_id p + d\<rparr>)
           (new_way\<lparr>obj_id := m_delta_id p + d\<rparr>) data1 = Inr (p2, object, user, data2)"
  shows "decode_way p addr data =
     (if data2 = [] then Inr (p2, object\<lparr>obj_user := user, obj_visible := False\<rparr>)
      else (case decode_varint data2 of
              Inl e \<Rightarrow> Inl e
            | Inr (reference_section_length, data3) \<Rightarrow>
                (case (if reference_section_length > 0
                       then if (addr + (length data - length data3)
                                  + unat reference_section_length) mod 2 ^ 64
                               > addr + length data
                            then Inl (o5m_error ''way nodes ref section too long'')
                            else decode_way_refs
                                   ((addr + (length data - length data3)
                                       + unat reference_section_length) mod 2 ^ 64)
                                   (addr + (length data - length data3))
                                   (m_delta_way_node_id p2) data3
                       else Inr ([], m_delta_way_node_id p2, data3)) of
                   Inl e \<Rightarrow> Inl e
                 | Inr (refs, delta, data4) \<Rightarrow>
                     (case decode_tags_if_any (m_reference_table p2) data4 of
                        Inl e \<Rightarrow> Inl e
                      | Inr (tags, table) \<Rightarrow>
                          Inr (p2\<lparr>m_delta_way_node_id := delta, m_reference_table := table\<rparr>,
                               object\<lparr>obj_user := user, way_nodes := refs, obj_tags := tags\<rparr>)))))"
  using assms by (simp add: decode_way_def Let_def split: sum.splits prod.splits)

lemma decode_way_frame:
  assumes "decode_way p addr data = Inr (p', way)"
  shows "same_frame p p'"
proof -
  obtain d data1 where z: "zvarint data = Inr (d, data1)"
    using assms by (cases "zvarint data") (auto simp: decode_way_def)
  obtain p2 object user data2 where
    i: "decode_info (p\<lparr>m_delta_id := m_delta_id p + d\<rparr>)
           (new_way\<lparr>obj_id := m_delta_id p + d\<rparr>) data1 = Inr (p2, object, user, data2)"
    using assms z
    by (cases "decode_info (p\<lparr>m_delta_id := m_delta_id p + d\<rparr>)
           (new_way\<lparr>obj_id := m_delta_id p + d\<rparr>) data1")
       (auto simp: decode_way_def Let_def)
  have f2: "same_frame p p2"
    using decode_info_frame(1) [OF i] by (simp add: same_frame_def)
  show ?thesis
  proof (cases "data2 = []")
    case True
    then show ?thesis using assms f2 unfolding decode_way_unfold [OF z i] by simp
  next
    case False
    then obtain delta table where "p' = p2\<lparr>m_delta_way_node_id := delta, m_reference_table := table\<rparr>"
      using assms unfolding decode_way_unfold [OF z i]
      by (simp split: sum.splits prod.splits) blast
    then show ?thesis using f2 by (simp add: same_frame_def)
  qed
qed

lemma decode_relation_unfold:
  assumes "zvarint data = Inr (d, data1)"
    and "decode_info (p\<lparr>m_delta_id := m_delta_id p + d\<rparr>)
           (new_relation\<lparr>obj_id := m_delta_id p + d\<rparr>) data1 = Inr (p2, object, user, data2)"
  shows "decode_relation p addr data =
     (if data2 = [] then Inr (p2, object\<lparr>obj_user := user, obj_visible := False\<rparr>)
      else (case decode_varint data2 of
              Inl e \<Rightarrow> Inl e
            | Inr (reference_section_length, data3) \<Rightarrow>
                (case (if reference_section_length > 0
                       then if (addr + (length data - length data3)
                                  + unat reference_section_length) mod 2 ^ 64
                               > addr + length data
                            then Inl (o5m_error ''relation format error'')
                            else decode_members
                                   ((addr + (length data - length data3)
                                       + unat reference_section_length) mod 2 ^ 64)
                                   (addr + (length data - length data3))
                                   (m_delta_member_ids p2) (m_reference_table p2) data3
                       else Inr ([], m_delta_member_ids p2, m_reference_table p2, data3)) of
                   Inl e \<Rightarrow> Inl e
                 | Inr (members, deltas, table, data4) \<Rightarrow>
                     (case decode_tags_if_any table data4 of
                        Inl e \<Rightarrow> Inl e
                      | Inr (tags, table') \<Rightarrow>
                          Inr (p2\<lparr>m_delta_member_ids := deltas, m_reference_table := table'\<rparr>,
                               object\<lparr>obj_user := user, relation_members := members,
                                      obj_tags := tags\<rparr>)))))"
  using assms by (simp add: decode_relation_def Let_def split: sum.splits prod.splits)

lemma decode_relation_frame:
  assumes "decode_relation p addr data = Inr (p', relation)"
  shows "same_frame p p'"
proof -
  obtain d data1 where z: "zvarint data = Inr (d, data1)"
    using assms by (cases "zvarint data") (auto simp: decode_relation_def)
  obtain p2 object user data2 where
    i: "decode_info (p\<lparr>m_delta_id := m_delta_id p + d\<rparr>)
           (new_relation\<lparr>obj_id := m_delta_id p + d\<rparr>) data1 = Inr (p2, object, user, data2)"
    using assms z
    by (cases "decode_info (p\<lparr>m_delta_id := m_delta_id p + d\<rparr>)
           (new_relation\<lparr>obj_id := m_delta_id p + d\<rparr>) data1")
       (auto simp: decode_relation_def Let_def)
  have f2: "same_frame p p2"
    using decode_info_frame(1) [OF i] by (simp add: same_frame_def)
  show ?thesis
  proof (cases "data2 = []")
    case True
    then show ?thesis using assms f2 unfolding decode_relation_unfold [OF z i] by simp
  next
    case False
    then obtain deltas table where "p' = p2\<lparr>m_delta_member_ids := deltas, m_reference_table := table\<rparr>"
      using assms unfolding decode_relation_unfold [OF z i]
      by (simp split: sum.splits prod.splits) blast
    then show ?thesis using f2 by (simp add: same_frame_def)
  qed
qed

subsection \<open>Datasets\<close>

lemma mark_header_as_done_fields:
  "read_types (mark_header_as_done p) = read_types p"
  "header_is_done (mark_header_as_done p)"
  "m_mem (mark_header_as_done p) = m_mem p"
  "m_data (mark_header_as_done p) = m_data p"
  "m_moved (mark_header_as_done p) = m_moved p"
  "m_input (mark_header_as_done p) = m_input p"
  "m_input_data (mark_header_as_done p) = m_input_data p"
  "input_queue (mark_header_as_done p) = input_queue p"
  "input_done (mark_header_as_done p) = input_done p"
  by (simp_all add: mark_header_as_done_def)

lemma dataset_payload_mark_header_as_done:
  "dataset_payload (mark_header_as_done p) len = dataset_payload p len"
  by (simp add: dataset_payload_def input_view_def mark_header_as_done_fields)

text \<open>The parts of the parser that say what input is left, and the entity mask.\<close>

lemma decode_bbox_fields:
  assumes "decode_bbox p data = Inr p'"
  shows "read_types p' = read_types p \<and> header_is_done p' = header_is_done p \<and>
         m_mem p' = m_mem p \<and> m_data p' = m_data p \<and> m_moved p' = m_moved p \<and>
         m_input p' = m_input p \<and> input_queue p' = input_queue p \<and> input_done p' = input_done p"
  using assms by (auto simp: decode_bbox_def split: sum.splits prod.splits)

lemma decode_timestamp_fields:
  assumes "decode_timestamp p data = Inr p'"
  shows "read_types p' = read_types p \<and> header_is_done p' = header_is_done p \<and>
         m_mem p' = m_mem p \<and> m_data p' = m_data p \<and> m_moved p' = m_moved p \<and>
         m_input p' = m_input p \<and> input_queue p' = input_queue p \<and> input_done p' = input_done p"
  using assms by (auto simp: decode_timestamp_def split: sum.splits prod.splits)

lemma same_frame_fields:
  assumes "same_frame p p'"
  shows "read_types p' = read_types p \<and> header_is_done p' = header_is_done p \<and>
         m_mem p' = m_mem p \<and> m_data p' = m_data p \<and> m_moved p' = m_moved p \<and>
         m_input p' = m_input p \<and> input_queue p' = input_queue p \<and> input_done p' = input_done p"
  using assms by (simp add: same_frame_def)

lemma decode_payload_fields:
  assumes "decode_payload ds_type p len = Inr p1"
  shows "read_types p1 = read_types p \<and>
         m_mem p1 = m_mem p \<and> m_data p1 = m_data p \<and> m_moved p1 = m_moved p \<and>
         m_input p1 = m_input p \<and> input_queue p1 = input_queue p \<and> input_done p1 = input_done p"
proof (cases "ds_type = dataset_node")
  case True
  show ?thesis
  proof (cases "item_node \<in> read_types p")
    case False
    then show ?thesis
      using assms True by (auto simp: decode_payload_def Let_def mark_header_as_done_fields)
  next
    case mask: True
    then obtain payload p2 node where
      d: "decode_node (mark_header_as_done p) payload = Inr (p2, node)"
      and p1: "p1 = p2\<lparr>emitted := emitted p2 @ [Node_entity node]\<rparr>"
      using assms True
      by (auto simp: decode_payload_def Let_def mark_header_as_done_fields
          split: sum.splits prod.splits)
    show ?thesis
      using same_frame_fields [OF decode_node_frame [OF d]] p1
      by (simp add: mark_header_as_done_fields)
  qed
next
  case n: False
  show ?thesis
  proof (cases "ds_type = dataset_way")
    case True
    show ?thesis
    proof (cases "item_way \<in> read_types p")
      case False
      then show ?thesis
        using assms True n by (auto simp: decode_payload_def Let_def mark_header_as_done_fields)
    next
      case mask: True
      then obtain payload addr p2 way where
        d: "decode_way (mark_header_as_done p) addr payload = Inr (p2, way)"
        and p1: "p1 = p2\<lparr>emitted := emitted p2 @ [Way_entity way]\<rparr>"
        using assms True n
        by (auto simp: decode_payload_def Let_def mark_header_as_done_fields
            split: sum.splits prod.splits)
      show ?thesis
        using same_frame_fields [OF decode_way_frame [OF d]] p1
        by (simp add: mark_header_as_done_fields)
    qed
  next
    case w: False
    show ?thesis
    proof (cases "ds_type = dataset_relation")
      case True
      show ?thesis
      proof (cases "item_relation \<in> read_types p")
        case False
        then show ?thesis
          using assms True n w
          by (auto simp: decode_payload_def Let_def mark_header_as_done_fields)
      next
        case mask: True
        then obtain payload addr p2 relation where
          d: "decode_relation (mark_header_as_done p) addr payload = Inr (p2, relation)"
          and p1: "p1 = p2\<lparr>emitted := emitted p2 @ [Relation_entity relation]\<rparr>"
          using assms True n w
          by (auto simp: decode_payload_def Let_def mark_header_as_done_fields
              split: sum.splits prod.splits)
        show ?thesis
          using same_frame_fields [OF decode_relation_frame [OF d]] p1
          by (simp add: mark_header_as_done_fields)
      qed
    next
      case r: False
      show ?thesis
      proof (cases "ds_type = dataset_bounding_box")
        case True
        then obtain payload where "decode_bbox p payload = Inr p1"
          using assms n w r by (auto simp: decode_payload_def split: sum.splits)
        then show ?thesis using decode_bbox_fields by blast
      next
        case b: False
        show ?thesis
        proof (cases "ds_type = dataset_timestamp")
          case True
          then obtain payload where "decode_timestamp p payload = Inr p1"
            using assms n w r b by (auto simp: decode_payload_def split: sum.splits)
          then show ?thesis using decode_timestamp_fields by blast
        next
          case False
          then show ?thesis using assms n w r b by (simp add: decode_payload_def)
        qed
      qed
    qed
  qed
qed

text \<open>A varint is decoded from its own bytes: what follows them does not matter.\<close>

lemma decode_varint_loop_append:
  "decode_varint_loop c sh v xs = Inr (r, rest) \<Longrightarrow>
   decode_varint_loop c sh v (xs @ ys) = Inr (r, rest @ ys)"
  by (induction xs arbitrary: c sh v) (auto simp: Let_def split: if_splits)

lemma decode_varint_loop_error:
  "decode_varint_loop c sh v xs = Inl e \<Longrightarrow> c < max_varint_length \<Longrightarrow>
   (e = end_of_buffer_exception \<and> length xs + c < max_varint_length)
   \<or> (e = varint_too_long_exception \<and>
       (\<forall>ys. decode_varint_loop c sh v (xs @ ys) = Inl varint_too_long_exception))"
proof (induction xs arbitrary: c sh v)
  case Nil
  then show ?case by auto
next
  case (Cons b xs)
  show ?case
  proof (cases "b AND 0x80 = 0")
    case True
    then show ?thesis using Cons.prems by (simp add: Let_def)
  next
    case nz: False
    show ?thesis
    proof (cases "max_varint_length \<le> c + 1")
      case True
      then show ?thesis using Cons.prems nz by (simp add: Let_def)
    next
      case False
      then have "decode_varint_loop (c + 1) (sh + 7) (v OR push_bit sh (ucast (b AND 0x7F))) xs = Inl e"
        using Cons.prems nz by (simp add: Let_def)
      from Cons.IH [OF this] show ?thesis using nz False by (auto simp: Let_def)
    qed
  qed
qed

lemma decode_varint_loop_suffix:
  "decode_varint_loop c sh v xs = Inr (r, rest) \<Longrightarrow>
   length rest < length xs \<and> drop (length xs - length rest) xs = rest"
proof (induction xs arbitrary: c sh v)
  case Nil
  then show ?case by simp
next
  case (Cons b xs)
  show ?case
  proof (cases "b AND 0x80 = 0")
    case True
    then show ?thesis using Cons.prems by (auto simp: Let_def)
  next
    case False
    then have "decode_varint_loop (c + 1) (sh + 7) (v OR push_bit sh (ucast (b AND 0x7F))) xs
                 = Inr (r, rest)"
      using Cons.prems by (simp add: Let_def split: if_splits)
    from Cons.IH [OF this] show ?thesis by (simp add: Suc_diff_le)
  qed
qed

lemma decode_varint_of_prefix:
  assumes "decode_varint (data @ ys) = Inr (v, rest')" "max_varint_length \<le> length data"
  shows "\<exists>rest. decode_varint data = Inr (v, rest) \<and> rest' = rest @ ys
                \<and> length rest < length data \<and> drop (length data - length rest) data = rest"
proof (cases "decode_varint data")
  case (Inl e)
  then show ?thesis
    using decode_varint_loop_error [of 0 0 0 data e] assms
    by (auto simp: decode_varint_def max_varint_length_def)
next
  case (Inr res)
  obtain w rest where res: "res = (w, rest)" by (cases res)
  have "decode_varint (data @ ys) = Inr (w, rest @ ys)"
    using Inr res decode_varint_loop_append [of 0 0 0 data w rest ys]
    by (simp add: decode_varint_def)
  then show ?thesis
    using assms Inr res decode_varint_loop_suffix [of 0 0 0 data w rest]
    by (simp add: decode_varint_def)
qed

lemma decode_payload_dispatch:
  assumes "dataset_payload q len = Inr payload"
  shows "(case decode_payload ds_type q len of Inl e \<Rightarrow> Inl e | Inr q5 \<Rightarrow> finish q5) =
     (if ds_type = dataset_node
      then (if item_node \<in> read_types q
            then (case decode_node (mark_header_as_done q) payload of
                    Inl e \<Rightarrow> Inl e
                  | Inr (q2, node) \<Rightarrow> finish (q2\<lparr>emitted := emitted q2 @ [Node_entity node]\<rparr>))
            else finish (mark_header_as_done q))
      else if ds_type = dataset_way
      then (if item_way \<in> read_types q
            then (case decode_way (mark_header_as_done q) (m_input_data q + m_data q) payload of
                    Inl e \<Rightarrow> Inl e
                  | Inr (q2, way) \<Rightarrow> finish (q2\<lparr>emitted := emitted q2 @ [Way_entity way]\<rparr>))
            else finish (mark_header_as_done q))
      else if ds_type = dataset_relation
      then (if item_relation \<in> read_types q
            then (case decode_relation (mark_header_as_done q) (m_input_data q + m_data q)
                         payload of
                    Inl e \<Rightarrow> Inl e
                  | Inr (q2, relation) \<Rightarrow>
                      finish (q2\<lparr>emitted := emitted q2 @ [Relation_entity relation]\<rparr>))
            else finish (mark_header_as_done q))
      else if ds_type = dataset_bounding_box
      then (case decode_bbox q payload of Inl e \<Rightarrow> Inl e | Inr q2 \<Rightarrow> finish q2)
      else if ds_type = dataset_timestamp
      then (case decode_timestamp q payload of Inl e \<Rightarrow> Inl e | Inr q2 \<Rightarrow> finish q2)
      else finish q)"
  using assms
  by (simp add: decode_payload_def Let_def mark_header_as_done_fields
      dataset_payload_mark_header_as_done split: sum.splits prod.splits)

lemma dataset_payload_in_order:
  assumes "pointers_in_order q" "pending_input q = rest" "n \<le> length (m_mem q) - m_data q"
  shows "dataset_payload q n = Inr (take n rest)"
  using assms
  by (auto simp: dataset_payload_def input_view_def pointers_in_order_def pending_input_def)

lemma reset_fields:
  "m_mem (reset p) = m_mem p" "m_data (reset p) = m_data p" "m_moved (reset p) = m_moved p"
  "m_input (reset p) = m_input p" "input_queue (reset p) = input_queue p"
  "input_done (reset p) = input_done p"
  by (simp_all add: reset_def)

lemma pending_input_reset: "pending_input (reset p) = pending_input p"
  by (simp add: pending_input_def input_stream_def reset_fields)

lemma pending_input_cong:
  assumes "m_mem p' = m_mem p" "m_data p' = m_data p" "input_queue p' = input_queue p"
    "input_done p' = input_done p"
  shows "pending_input p' = pending_input p"
  using assms by (simp add: pending_input_def input_stream_def)

lemma pointers_in_order_cong:
  assumes "m_mem p' = m_mem p" "m_data p' = m_data p" "input_queue p' = input_queue p"
    "input_done p' = input_done p" "m_moved p' = m_moved p" "m_input p' = m_input p"
  shows "pointers_in_order p' = pointers_in_order p"
  using assms by (simp add: pointers_in_order_def input_stream_def)

lemma decode_dataset_marker:
  assumes "input_view p = Inr (ds_type # view)" "dataset_jump < ds_type"
  shows "decode_dataset p =
           Inr (continue_loop (if ds_type = dataset_reset then reset (p\<lparr>m_data := m_data p + 1\<rparr>)
                               else p\<lparr>m_data := m_data p + 1\<rparr>))"
  using assms by (simp add: decode_dataset_def Let_def)

lemma decode_dataset_length:
  assumes "input_view p = Inr (ds_type # view)" "ds_type \<le> dataset_jump"
    and "ensure_bytes_available max_varint_length (p\<lparr>m_data := m_data p + 1\<rparr>) = Inr (b, p2)"
    and "input_view p2 = Inr data" "decode_varint data = Inr (len, r)"
    and "ensure_bytes_available (unat len) (p2\<lparr>m_data := m_data p2 + (length data - length r)\<rparr>)
           = Inr (available, q)"
  shows "decode_dataset p =
     (if \<not> available then Inl (o5m_error ''premature end of file'')
      else (case decode_payload ds_type q (unat len) of
              Inl e \<Rightarrow> Inl e
            | Inr q5 \<Rightarrow>
                if read_types q5 = {} \<and> header_is_done q5 then Inr (break_loop q5)
                else Inr (continue_loop (q5\<lparr>m_data := m_data q5 + unat len\<rparr>))))"
  using assms by (simp add: decode_dataset_def Let_def not_less [symmetric])

text \<open>
  Claim C1, as the code has it, for a parser whose pointers are in order and that has a
  byte \<open>ds_type\<close> between them, followed by the input \<open>rest\<close>. Above \<open>0xEF\<close> no length is
  read, the type byte alone is consumed, and \<open>0xFF\<close> resets the parser while every other
  such byte changes nothing. Up to \<open>0xEF\<close>, with at least ten bytes of input behind the
  type byte, the length varint \<open>len\<close> is read. If fewer than \<open>len\<close> bytes follow it, the
  dataset ends in the error of a premature end of file. Otherwise the input is buffered
  in a parser \<open>q\<close> that decodes like \<open>p\<close>, and the payload, the next \<open>len\<close> bytes, goes
  through the switch: a node, way or relation is decoded and emitted when the entity mask
  holds its type, a bounding box and a timestamp are decoded in any case, and every other
  type leaves the parser alone. Then, if the entity mask is empty and the header is
  published, the loop is left with the payload unconsumed, and otherwise exactly \<open>len\<close>
  payload bytes are consumed.
\<close>

theorem decode_dataset_framing:
  assumes "pointers_in_order p" and "m_data p < length (m_mem p)"
    and "pending_input p = ds_type # rest"
  shows
   "(dataset_jump < ds_type \<longrightarrow>
       decode_dataset p =
         Inr (continue_loop (if ds_type = dataset_reset then reset (p\<lparr>m_data := m_data p + 1\<rparr>)
                             else p\<lparr>m_data := m_data p + 1\<rparr>))
       \<and> pending_input (p\<lparr>m_data := m_data p + 1\<rparr>) = rest
       \<and> pending_input (reset (p\<lparr>m_data := m_data p + 1\<rparr>)) = rest)
    \<and> (ds_type \<le> dataset_jump \<and> 10 \<le> length rest \<and> decode_varint rest = Inr (len, rest') \<longrightarrow>
         (length rest' < unat len \<longrightarrow>
            decode_dataset p = Inl (o5m_error ''premature end of file''))
         \<and> (unat len \<le> length rest' \<longrightarrow>
              (\<exists>q. pointers_in_order q \<and> decodes_alike p q \<and> pending_input q = rest' \<and>
                 decode_dataset p =
                   (let payload = take (unat len) rest';
                        finish = (\<lambda>r. if read_types r = {} \<and> header_is_done r
                                       then Inr (break_loop r)
                                       else Inr (continue_loop (r\<lparr>m_data := m_data r + unat len\<rparr>)))
                    in if ds_type = dataset_node
                       then (if item_node \<in> read_types q
                             then (case decode_node (mark_header_as_done q) payload of
                                     Inl e \<Rightarrow> Inl e
                                   | Inr (q2, node) \<Rightarrow>
                                       finish (q2\<lparr>emitted := emitted q2 @ [Node_entity node]\<rparr>))
                             else finish (mark_header_as_done q))
                       else if ds_type = dataset_way
                       then (if item_way \<in> read_types q
                             then (case decode_way (mark_header_as_done q)
                                          (m_input_data q + m_data q) payload of
                                     Inl e \<Rightarrow> Inl e
                                   | Inr (q2, way) \<Rightarrow>
                                       finish (q2\<lparr>emitted := emitted q2 @ [Way_entity way]\<rparr>))
                             else finish (mark_header_as_done q))
                       else if ds_type = dataset_relation
                       then (if item_relation \<in> read_types q
                             then (case decode_relation (mark_header_as_done q)
                                          (m_input_data q + m_data q) payload of
                                     Inl e \<Rightarrow> Inl e
                                   | Inr (q2, relation) \<Rightarrow>
                                       finish (q2\<lparr>emitted :=
                                                   emitted q2 @ [Relation_entity relation]\<rparr>))
                             else finish (mark_header_as_done q))
                       else if ds_type = dataset_bounding_box
                       then (case decode_bbox q payload of
                               Inl e \<Rightarrow> Inl e
                             | Inr q2 \<Rightarrow> finish q2)
                       else if ds_type = dataset_timestamp
                       then (case decode_timestamp q payload of
                               Inl e \<Rightarrow> Inl e
                             | Inr q2 \<Rightarrow> finish q2)
                       else finish q))
              \<and> (\<forall>p'. decode_dataset p = Inr (continue_loop p') \<longrightarrow>
                    pointers_in_order p' \<and> pending_input p' = drop (unat len) rest')
              \<and> (\<forall>p'. decode_dataset p = Inr (break_loop p') \<longrightarrow>
                    pending_input p' = rest' \<and> read_types p = {} \<and> header_is_done p')))"
   (is "(_ \<longrightarrow> ?marker) \<and> (_ \<longrightarrow> (_ \<longrightarrow> ?short) \<and> (_ \<longrightarrow> ?ex \<and> ?cont \<and> ?brk))")
proof -
  let ?p1 = "p\<lparr>m_data := m_data p + 1\<rparr>"
  have nm: "\<not> m_moved p" using assms(1) by (auto simp: pointers_in_order_def)
  obtain view where view: "drop (m_data p) (m_mem p) = ds_type # view"
    using assms(2,3) by (cases "drop (m_data p) (m_mem p)") (auto simp: pending_input_def)
  have iv: "input_view p = Inr (ds_type # view)"
    using nm view by (simp add: input_view_def)
  have one: "1 \<le> length (m_mem p) - m_data p" using assms(2) by simp
  have o1: "pointers_in_order ?p1"
    using assms(1,2) by (intro pointers_in_order_advance) simp_all
  have pend1: "pending_input ?p1 = rest"
    using pending_input_advance [OF assms(3) one] by simp
  have marker: ?marker if "dataset_jump < ds_type"
    using decode_dataset_marker [OF iv that] pend1 by (simp add: pending_input_reset)
  have body: "(length rest' < unat len \<longrightarrow> ?short)
                \<and> (unat len \<le> length rest' \<longrightarrow> ?ex \<and> ?cont \<and> ?brk)"
    if le: "ds_type \<le> dataset_jump" and ten: "10 \<le> length rest"
      and dv: "decode_varint rest = Inr (len, rest')"
  proof -
    have "max_varint_length \<le> length (pending_input ?p1)"
      using ten pend1 by (simp add: max_varint_length_def)
    from ensure_bytes_available_enough [OF o1 this]
    obtain p2 where p2: "ensure_bytes_available max_varint_length ?p1 = Inr (True, p2)"
      "pointers_in_order p2" "pending_input p2 = rest" "decodes_alike ?p1 p2"
      "max_varint_length \<le> length (m_mem p2) - m_data p2"
      using pend1 by auto
    define data where "data = drop (m_data p2) (m_mem p2)"
    have iv2: "input_view p2 = Inr data"
      using p2 (2) by (auto simp: input_view_def pointers_in_order_def data_def)
    have rest: "rest = data @ input_stream p2"
      using p2 (3) by (simp add: pending_input_def data_def)
    have "max_varint_length \<le> length data" using p2 (5) by (simp add: data_def)
    from decode_varint_of_prefix [OF dv [unfolded rest] this]
    obtain r where r: "decode_varint data = Inr (len, r)" "rest' = r @ input_stream p2"
      "length r < length data" "drop (length data - length r) data = r"
      by auto
    let ?p3 = "p2\<lparr>m_data := m_data p2 + (length data - length r)\<rparr>"
    have room: "length data - length r \<le> length (m_mem p2) - m_data p2"
      by (simp add: data_def)
    have "m_data p2 + (length data - length r) \<le> length (m_mem p2)"
      using p2 (2) by (auto simp: data_def pointers_in_order_def)
    then have o3: "pointers_in_order ?p3"
      by (rule pointers_in_order_advance [OF p2 (2)])
    have pend3: "pending_input ?p3 = rest'"
      using pending_input_advance [OF p2 (3) room] r (2,4) rest by simp
    have a3: "decodes_alike p ?p3"
      using p2 (4) by (simp add: decodes_alike_def)
    show ?thesis
    proof (cases "unat len \<le> length rest'")
      case False
      then have "length (pending_input ?p3) < unat len" using pend3 by simp
      from ensure_bytes_available_short [OF o3 this]
      obtain q where e: "ensure_bytes_available (unat len) ?p3 = Inr (False, q)" by auto
      have s: ?short
        using decode_dataset_length [OF iv le p2 (1) iv2 r (1) e] by simp
      show ?thesis
      proof (rule conjI)
        show "length rest' < unat len \<longrightarrow> ?short" using s by blast
        show "unat len \<le> length rest' \<longrightarrow> ?ex \<and> ?cont \<and> ?brk"
        proof (rule impI)
          assume "unat len \<le> length rest'"
          with False show "?ex \<and> ?cont \<and> ?brk" by (rule notE)
        qed
      qed
    next
      case True
      then have "unat len \<le> length (pending_input ?p3)" using pend3 by simp
      from ensure_bytes_available_enough [OF o3 this]
      obtain q where q: "ensure_bytes_available (unat len) ?p3 = Inr (True, q)"
        "pointers_in_order q" "pending_input q = rest'" "decodes_alike ?p3 q"
        "unat len \<le> length (m_mem q) - m_data q"
        using pend3 by auto
      have aq: "decodes_alike p q" using decodes_alike_trans [OF a3 q (4)] .
      have pay: "dataset_payload q (unat len) = Inr (take (unat len) rest')"
        using dataset_payload_in_order [OF q (2,3,5)] .
      have dd: "decode_dataset p =
         (case decode_payload ds_type q (unat len) of
              Inl e \<Rightarrow> Inl e
            | Inr q5 \<Rightarrow>
                if read_types q5 = {} \<and> header_is_done q5 then Inr (break_loop q5)
                else Inr (continue_loop (q5\<lparr>m_data := m_data q5 + unat len\<rparr>)))"
        using decode_dataset_length [OF iv le p2 (1) iv2 r (1) q (1)] by simp
      have ex: ?ex
      proof (intro exI [of _ q] conjI)
        show "pointers_in_order q" by (rule q (2))
        show "decodes_alike p q" by (rule aq)
        show "pending_input q = rest'" by (rule q (3))
        show "decode_dataset p = (let payload = take (unat len) rest';
                        finish = (\<lambda>r. if read_types r = {} \<and> header_is_done r
                                       then Inr (break_loop r)
                                       else Inr (continue_loop (r\<lparr>m_data := m_data r + unat len\<rparr>)))
                    in if ds_type = dataset_node
                       then (if item_node \<in> read_types q
                             then (case decode_node (mark_header_as_done q) payload of
                                     Inl e \<Rightarrow> Inl e
                                   | Inr (q2, node) \<Rightarrow>
                                       finish (q2\<lparr>emitted := emitted q2 @ [Node_entity node]\<rparr>))
                             else finish (mark_header_as_done q))
                       else if ds_type = dataset_way
                       then (if item_way \<in> read_types q
                             then (case decode_way (mark_header_as_done q)
                                          (m_input_data q + m_data q) payload of
                                     Inl e \<Rightarrow> Inl e
                                   | Inr (q2, way) \<Rightarrow>
                                       finish (q2\<lparr>emitted := emitted q2 @ [Way_entity way]\<rparr>))
                             else finish (mark_header_as_done q))
                       else if ds_type = dataset_relation
                       then (if item_relation \<in> read_types q
                             then (case decode_relation (mark_header_as_done q)
                                          (m_input_data q + m_data q) payload of
                                     Inl e \<Rightarrow> Inl e
                                   | Inr (q2, relation) \<Rightarrow>
                                       finish (q2\<lparr>emitted :=
                                                   emitted q2 @ [Relation_entity relation]\<rparr>))
                             else finish (mark_header_as_done q))
                       else if ds_type = dataset_bounding_box
                       then (case decode_bbox q payload of
                               Inl e \<Rightarrow> Inl e
                             | Inr q2 \<Rightarrow> finish q2)
                       else if ds_type = dataset_timestamp
                       then (case decode_timestamp q payload of
                               Inl e \<Rightarrow> Inl e
                             | Inr q2 \<Rightarrow> finish q2)
                       else finish q)"
          unfolding dd Let_def by (rule decode_payload_dispatch [OF pay])
      qed
      have cont: ?cont
      proof (intro allI impI)
        fix p'
        assume c: "decode_dataset p = Inr (continue_loop p')"
        obtain q5 where q5: "decode_payload ds_type q (unat len) = Inr q5"
          "p' = q5\<lparr>m_data := m_data q5 + unat len\<rparr>"
          using c unfolding dd by (auto split: sum.splits if_splits)
        note f = decode_payload_fields [OF q5 (1)]
        have o5: "pointers_in_order q5"
          using pointers_in_order_cong [of q5 q] f q (2) by simp
        have pend5: "pending_input q5 = rest'"
          using pending_input_cong [of q5 q] f q (3) by simp
        have room5: "unat len \<le> length (m_mem q5) - m_data q5" using f q (5) by simp
        have "m_data q5 + unat len \<le> length (m_mem q5)"
          using room5 o5 by (auto simp: pointers_in_order_def)
        then have "pointers_in_order p'"
          unfolding q5 (2) by (rule pointers_in_order_advance [OF o5])
        moreover have "pending_input p' = drop (unat len) rest'"
          unfolding q5 (2) by (rule pending_input_advance [OF pend5 room5])
        ultimately show "pointers_in_order p' \<and> pending_input p' = drop (unat len) rest'"
          by (rule conjI)
      qed
      have brk: ?brk
      proof (intro allI impI)
        fix p'
        assume c: "decode_dataset p = Inr (break_loop p')"
        have q5: "decode_payload ds_type q (unat len) = Inr p'" "read_types p' = {}"
          "header_is_done p'"
          using c unfolding dd by (auto split: sum.splits if_splits)
        note f = decode_payload_fields [OF q5 (1)]
        have "pending_input p' = rest'"
          using pending_input_cong [of p' q] f q (3) by simp
        moreover have "read_types p = {}"
          using f q5 (2) aq by (simp add: decodes_alike_def)
        ultimately show "pending_input p' = rest' \<and> read_types p = {} \<and> header_is_done p'"
          using q5 (3) by simp
      qed
      have n: "\<not> length rest' < unat len" using True by simp
      show ?thesis
      proof (rule conjI)
        show "length rest' < unat len \<longrightarrow> ?short"
        proof (rule impI)
          assume "length rest' < unat len"
          with n show ?short by (rule notE)
        qed
        show "unat len \<le> length rest' \<longrightarrow> ?ex \<and> ?cont \<and> ?brk"
          using ex cont brk by (intro impI conjI)
      qed
    qed
  qed
  show ?thesis
  proof (rule conjI)
    show "dataset_jump < ds_type \<longrightarrow> ?marker"
    proof (rule impI)
      assume "dataset_jump < ds_type"
      then show ?marker by (rule marker)
    qed
    show "ds_type \<le> dataset_jump \<and> 10 \<le> length rest \<and> decode_varint rest = Inr (len, rest')
            \<longrightarrow> (length rest' < unat len \<longrightarrow> ?short)
                \<and> (unat len \<le> length rest' \<longrightarrow> ?ex \<and> ?cont \<and> ?brk)"
    proof (rule impI)
      assume a: "ds_type \<le> dataset_jump \<and> 10 \<le> length rest \<and> decode_varint rest = Inr (len, rest')"
      have a1: "ds_type \<le> dataset_jump" and a2: "10 \<le> length rest"
        and a3: "decode_varint rest = Inr (len, rest')"
        using a by simp_all
      show "(length rest' < unat len \<longrightarrow> ?short)
                \<and> (unat len \<le> length rest' \<longrightarrow> ?ex \<and> ?cont \<and> ?brk)"
        by (rule body [OF a1 a2 a3])
    qed
  qed
qed

lemmas dataset_eval =
  decode_dataset_def input_view_def ensure_bytes_available_def bytes_left_def m_end_def
  max_varint_length_def decode_varint_def zvarint_def decode_zigzag64_def Let_def
  decode_payload_def dataset_payload_def mark_header_as_done_def
  dataset_node_def dataset_way_def dataset_relation_def dataset_bounding_box_def
  dataset_timestamp_def dataset_jump_def dataset_reset_def new_parser_def

text \<open>
  The theorem at a parser that has the stream \<open>10 02 02 00 FF FF FF FF FF FF FF FE\<close> in
  its string and reads nodes: a deleted node with id 1 is emitted, and the four bytes of
  the dataset are consumed.
\<close>

theorem decode_dataset_framing_witness:
  "decode_dataset
     ((new_parser 4096 [] {item_node})
        \<lparr>m_input := [0x10, 0x02, 0x02, 0x00, 0xFF, 0xFF, 0xFF, 0xFF, 0xFF, 0xFF, 0xFF, 0xFE],
         m_mem := [0x10, 0x02, 0x02, 0x00, 0xFF, 0xFF, 0xFF, 0xFF, 0xFF, 0xFF, 0xFF, 0xFE]\<rparr>)
     = Inr (continue_loop
         ((new_parser 4096 [] {item_node})
            \<lparr>m_input := [0x10, 0x02, 0x02, 0x00, 0xFF, 0xFF, 0xFF, 0xFF, 0xFF, 0xFF, 0xFF, 0xFE],
             m_mem := [0x10, 0x02, 0x02, 0x00, 0xFF, 0xFF, 0xFF, 0xFF, 0xFF, 0xFF, 0xFF, 0xFE],
             m_data := 4, m_delta_id := 1, header_is_done := True,
             published_header := Some new_header,
             emitted := [Node_entity (new_node\<lparr>obj_id := 1, obj_visible := False\<rparr>)]\<rparr>))
   \<and> pending_input
        ((new_parser 4096 [] {item_node})
            \<lparr>m_input := [0x10, 0x02, 0x02, 0x00, 0xFF, 0xFF, 0xFF, 0xFF, 0xFF, 0xFF, 0xFF, 0xFE],
             m_mem := [0x10, 0x02, 0x02, 0x00, 0xFF, 0xFF, 0xFF, 0xFF, 0xFF, 0xFF, 0xFF, 0xFE],
             m_data := 4, m_delta_id := 1, header_is_done := True,
             published_header := Some new_header,
             emitted := [Node_entity (new_node\<lparr>obj_id := 1, obj_visible := False\<rparr>)]\<rparr>)
     = [0xFF, 0xFF, 0xFF, 0xFF, 0xFF, 0xFF, 0xFF, 0xFE]"
proof -
  define bytes :: "byte list" where
    "bytes = [0x10, 0x02, 0x02, 0x00, 0xFF, 0xFF, 0xFF, 0xFF, 0xFF, 0xFF, 0xFF, 0xFE]"
  define P where "P = (new_parser 4096 [] {item_node})\<lparr>m_input := bytes, m_mem := bytes\<rparr>"
  define P' where
    "P' = (new_parser 4096 [] {item_node})
            \<lparr>m_input := bytes, m_mem := bytes,
             m_data := 4, m_delta_id := 1, header_is_done := True,
             published_header := Some new_header,
             emitted := [Node_entity (new_node\<lparr>obj_id := 1, obj_visible := False\<rparr>)]\<rparr>"
  have o: "pointers_in_order P"
    by (simp add: P_def bytes_def pointers_in_order_def input_stream_def new_parser_def)
  have lt: "m_data P < length (m_mem P)" by (simp add: P_def bytes_def new_parser_def)
  have pend: "pending_input P = 0x10 # [0x02, 0x02, 0x00, 0xFF, 0xFF, 0xFF, 0xFF, 0xFF, 0xFF, 0xFF, 0xFE]"
    by (simp add: P_def bytes_def pending_input_def input_stream_def new_parser_def)
  have v: "decode_varint [0x02, 0x02, 0x00, 0xFF, 0xFF, 0xFF, 0xFF, 0xFF, 0xFF, 0xFF, 0xFE]
             = Inr (2, [0x02, 0x00, 0xFF, 0xFF, 0xFF, 0xFF, 0xFF, 0xFF, 0xFF, 0xFE])"
    by (simp add: decode_varint_def Let_def)
  have e: "decode_dataset P = Inr (continue_loop P')"
    by (simp add: P_def P'_def bytes_def dataset_eval decode_node_def decode_info_def new_node_def)
  have "pending_input P' = drop (unat (2 :: 64 word))
          [0x02, 0x00, 0xFF, 0xFF, 0xFF, 0xFF, 0xFF, 0xFF, 0xFF, 0xFE]"
    using decode_dataset_framing [OF o lt pend, of 2
        "[0x02, 0x00, 0xFF, 0xFF, 0xFF, 0xFF, 0xFF, 0xFF, 0xFF, 0xFE]"] v e
    by (simp add: dataset_jump_def)
  then have "pending_input P' = [0xFF, 0xFF, 0xFF, 0xFF, 0xFF, 0xFF, 0xFF, 0xFE]" by simp
  then show ?thesis using e unfolding P_def P'_def bytes_def by simp
qed

text \<open>
  The claim as stated fails: with an empty entity mask the node dataset \<open>10 02 02 00\<close> is
  neither decoded nor consumed (the loop is left with \<^verbatim>\<open>m_data\<close> at the payload); with a
  mask of ways only, its payload is consumed without being decoded.
\<close>

theorem decode_dataset_empty_mask_stops:
  "decode_dataset
     ((new_parser 4096 [] {})
        \<lparr>m_input := [0x10, 0x02, 0x02, 0x00, 0xFF, 0xFF, 0xFF, 0xFF, 0xFF, 0xFF, 0xFF, 0xFE],
         m_mem := [0x10, 0x02, 0x02, 0x00, 0xFF, 0xFF, 0xFF, 0xFF, 0xFF, 0xFF, 0xFF, 0xFE]\<rparr>)
     = Inr (break_loop
         ((new_parser 4096 [] {})
            \<lparr>m_input := [0x10, 0x02, 0x02, 0x00, 0xFF, 0xFF, 0xFF, 0xFF, 0xFF, 0xFF, 0xFF, 0xFE],
             m_mem := [0x10, 0x02, 0x02, 0x00, 0xFF, 0xFF, 0xFF, 0xFF, 0xFF, 0xFF, 0xFF, 0xFE],
             m_data := 2, header_is_done := True, published_header := Some new_header\<rparr>))
   \<and> decode_dataset
     ((new_parser 4096 [] {item_way})
        \<lparr>m_input := [0x10, 0x02, 0x02, 0x00, 0xFF, 0xFF, 0xFF, 0xFF, 0xFF, 0xFF, 0xFF, 0xFE],
         m_mem := [0x10, 0x02, 0x02, 0x00, 0xFF, 0xFF, 0xFF, 0xFF, 0xFF, 0xFF, 0xFF, 0xFE]\<rparr>)
     = Inr (continue_loop
         ((new_parser 4096 [] {item_way})
            \<lparr>m_input := [0x10, 0x02, 0x02, 0x00, 0xFF, 0xFF, 0xFF, 0xFF, 0xFF, 0xFF, 0xFF, 0xFE],
             m_mem := [0x10, 0x02, 0x02, 0x00, 0xFF, 0xFF, 0xFF, 0xFF, 0xFF, 0xFF, 0xFF, 0xFE],
             m_data := 4, header_is_done := True, published_header := Some new_header\<rparr>))"
  by (simp add: dataset_eval)

text \<open>
  Left out of the statement above is a dataset with fewer than ten bytes of input behind
  its type byte. When the input ends there, \<^verbatim>\<open>ensure_bytes_available\<close> has erased the
  bytes read so far and returns false without setting the pointers anew; \<^verbatim>\<open>decode_data\<close>
  does not look at the result and reads the length through the old pointers. For the
  file of a header and the stream \<open>10 02 02 00 FE\<close>, handed over in two chunks, the
  length is read one byte late: the payload is taken to be \<open>00 FE\<close>, and the node decoder
  ends in \<open>end_of_buffer_exception\<close>.
\<close>

lemma decode_data_reads_through_old_pointers:
  "run (new_parser 4096 [[0xFF, 0xE0, 0x04, 0x6F, 0x35, 0x6D, 0x32], [0x10, 0x02, 0x02, 0x00, 0xFE]]
          {item_node})
     = Some (Inl end_of_buffer_exception)"
proof -
  let ?P = "new_parser 4096 [[0xFF, 0xE0, 0x04, 0x6F, 0x35, 0x6D, 0x32], [0x10, 0x02, 0x02, 0x00, 0xFE]]
              {item_node}"
  define P1 where
    "P1 = (new_parser 4096 [[0x10, 0x02, 0x02, 0x00, 0xFE]] {item_node})
            \<lparr>m_input := [0xFF, 0xE0, 0x04, 0x6F, 0x35, 0x6D, 0x32],
             m_mem := [0xFF, 0xE0, 0x04, 0x6F, 0x35, 0x6D, 0x32], m_data := 7\<rparr>"
  define P2 where
    "P2 = (new_parser 4096 [] {item_node})
            \<lparr>m_input := [0x10, 0x02, 0x02, 0x00, 0xFE], m_mem := [0x10, 0x02, 0x02, 0x00, 0xFE]\<rparr>"
  have h: "decode_header ?P = Inr P1"
    by (simp add: decode_header_def ensure_bytes_available_def bytes_left_def m_end_def
        refill.simps get_input_def string_erase_def string_append_def
        check_header_magic_def check_file_type_def check_file_format_version_def input_view_def
        header_magic_def strncmp_step_numeral strncmp_step new_parser_def new_header_def P1_def
        del: strncmp.simps(2))
  have e1: "ensure_bytes_available 1 P1 = Inr (True, P2)"
    by (simp add: P1_def P2_def ensure_bytes_available_def bytes_left_def m_end_def
        refill.simps get_input_def string_erase_def string_append_def new_parser_def)
  have d: "decode_dataset P2 = Inl end_of_buffer_exception"
    by (simp add: P2_def dataset_eval refill.simps get_input_def string_erase_def
        string_append_def decode_node_def decode_info_def new_node_def)
  have "decode_data_loop P1 = Some (Inl end_of_buffer_exception)"
    by (subst decode_data_loop.simps) (simp add: e1 d del: One_nat_def)
  then show ?thesis by (simp add: run_def h decode_data_def)
qed

text \<open>
  Claim C5, as the code has it. After a reset dataset every delta decoder reads 0 and the
  cursor of the reference table is 0; the table's bytes stay. The next \<open>get\<close> throws
  when the table has never been written to, or the index is 0 or above 15000; otherwise
  it returns slot \<open>(15000 - index) mod 15000\<close> with the bytes written before the reset.
\<close>

theorem reset_dataset:
  assumes "input_view p = Inr (dataset_reset # rest)"
  shows "decode_dataset p = Inr (continue_loop (reset (p\<lparr>m_data := m_data p + 1\<rparr>)))
     \<and> input_view (reset (p\<lparr>m_data := m_data p + 1\<rparr>)) = Inr rest
     \<and> m_delta_id (reset (p\<lparr>m_data := m_data p + 1\<rparr>)) = 0
     \<and> m_delta_timestamp (reset (p\<lparr>m_data := m_data p + 1\<rparr>)) = 0
     \<and> m_delta_changeset (reset (p\<lparr>m_data := m_data p + 1\<rparr>)) = 0
     \<and> m_delta_lon (reset (p\<lparr>m_data := m_data p + 1\<rparr>)) = 0
     \<and> m_delta_lat (reset (p\<lparr>m_data := m_data p + 1\<rparr>)) = 0
     \<and> m_delta_way_node_id (reset (p\<lparr>m_data := m_data p + 1\<rparr>)) = 0
     \<and> (\<forall>t. m_delta_member_ids (reset (p\<lparr>m_data := m_data p + 1\<rparr>)) t = 0)
     \<and> current_entry (m_reference_table (reset (p\<lparr>m_data := m_data p + 1\<rparr>))) = 0
     \<and> m_table (m_reference_table (reset (p\<lparr>m_data := m_data p + 1\<rparr>)))
         = m_table (m_reference_table p)
     \<and> (\<forall>index. ReferenceTable_get index (m_reference_table (reset (p\<lparr>m_data := m_data p + 1\<rparr>))) =
           (if m_table (m_reference_table p) = [] \<or> index = 0 \<or> 15000 < index
            then Inl (o5m_error ''reference to non-existing string in table'')
            else Inr (drop (((15000 - index) mod 15000) * 256) (m_table (m_reference_table p)))))"
proof -
  have nm: "\<not> m_moved p" and v: "drop (m_data p) (m_mem p) = dataset_reset # rest"
    using assms by (auto simp: input_view_def split: if_splits)
  have "drop (m_data p + 1) (m_mem p) = rest"
    unfolding drop_add_eq [OF v] by simp
  then have iv: "input_view (reset (p\<lparr>m_data := m_data p + 1\<rparr>)) = Inr rest"
    using nm by (simp add: input_view_def reset_fields)
  have d: "decode_dataset p = Inr (continue_loop (reset (p\<lparr>m_data := m_data p + 1\<rparr>)))"
    using decode_dataset_marker [OF assms] by (simp add: dataset_jump_def dataset_reset_def)
  show ?thesis
    using d iv
    by (simp add: reset_def ReferenceTable_clear_def ReferenceTable_get_def
        number_of_entries_def entry_size_def)
qed

text \<open>
  The theorem at a parser with running values 5 and 7, a table never written to and the
  bytes \<open>FF FE\<close> between its pointers.
\<close>

theorem reset_dataset_witness:
  "decode_dataset
     ((new_parser 4096 [] {})\<lparr>m_input := [0xFF, 0xFE], m_mem := [0xFF, 0xFE],
                                m_delta_id := 5, m_delta_lon := 7\<rparr>)
     = Inr (continue_loop
         ((new_parser 4096 [] {})\<lparr>m_input := [0xFF, 0xFE], m_mem := [0xFF, 0xFE], m_data := 1\<rparr>))
   \<and> ReferenceTable_get 1
        (m_reference_table
           ((new_parser 4096 [] {})\<lparr>m_input := [0xFF, 0xFE], m_mem := [0xFF, 0xFE], m_data := 1\<rparr>))
     = Inl (o5m_error ''reference to non-existing string in table'')"
proof -
  let ?p = "(new_parser 4096 [] {})\<lparr>m_input := [0xFF, 0xFE], m_mem := [0xFF, 0xFE],
                                     m_delta_id := 5, m_delta_lon := 7\<rparr>"
  have i: "input_view ?p = Inr (dataset_reset # [0xFE])"
    by (simp add: input_view_def new_parser_def dataset_reset_def)
  have r: "reset (?p\<lparr>m_data := m_data ?p + 1\<rparr>)
             = (new_parser 4096 [] {})\<lparr>m_input := [0xFF, 0xFE], m_mem := [0xFF, 0xFE], m_data := 1\<rparr>"
    by (simp add: reset_def new_parser_def ReferenceTable_clear_def ReferenceTable_init_def)
  show ?thesis using reset_dataset [OF i] unfolding r
    by (simp add: new_parser_def ReferenceTable_init_def)
qed

text \<open>
  The claim as stated fails: after the string \<open>a\<close>, \<open>b\<close> was added to the table, a reset
  dataset is processed and \<open>get 15000\<close> returns the slot that holds this string.
\<close>

theorem reset_keeps_table_strings:
  "decode_dataset ((new_parser 4096 [] {})
                     \<lparr>m_input := [0xFF], m_mem := [0xFF],
                      m_reference_table := ReferenceTable_add [0x61, 0, 0x62, 0] ReferenceTable_init\<rparr>)
     = Inr (continue_loop
         (reset ((new_parser 4096 [] {})
                   \<lparr>m_input := [0xFF], m_mem := [0xFF], m_data := 1,
                    m_reference_table := ReferenceTable_add [0x61, 0, 0x62, 0] ReferenceTable_init\<rparr>)))
   \<and> ReferenceTable_get 15000
        (m_reference_table
          (reset ((new_parser 4096 [] {})
                    \<lparr>m_input := [0xFF], m_mem := [0xFF], m_data := 1,
                     m_reference_table := ReferenceTable_add [0x61, 0, 0x62, 0] ReferenceTable_init\<rparr>)))
     = Inr ([0x61, 0, 0x62, 0] @ replicate 3839996 0)"
  by (simp add: decode_dataset_def input_view_def dataset_reset_def dataset_jump_def reset_def
      new_parser_def ReferenceTable_clear_def ReferenceTable_get_def ReferenceTable_add_def
      ReferenceTable_init_def number_of_entries_def entry_size_def max_length_def copy_n_def
      Let_def)

text \<open>
  The theorem at a fresh parser whose queue holds the header of a change file in two
  chunks, and at one whose input ends after six bytes.
\<close>

theorem decode_header_spec_witness:
  "(\<exists>p'. decode_header
            (new_parser 4096 [[0xFF, 0xE0, 0x04, 0x6F], [0x35, 0x63, 0x32, 0xFF]] {}) = Inr p'
         \<and> has_multiple_object_versions (m_header p') \<and> pending_input p' = [0xFF])
   \<and> decode_header (new_parser 4096 [[0xFF, 0xE0, 0x04, 0x6F, 0x35, 0x6D]] {})
     = Inl (o5m_error ''file too short (incomplete header info)'')"
proof -
  let ?p = "new_parser 4096 [[0xFF, 0xE0, 0x04, 0x6F], [0x35, 0x63, 0x32, 0xFF]] {}"
  have o: "pointers_in_order ?p"
    by (simp add: pointers_in_order_def input_stream_def new_parser_def)
  have pend: "pending_input ?p = [0xFF, 0xE0, 0x04, 0x6F, 0x35, 0x63, 0x32] @ [0xFF]"
    by (simp add: pending_input_def input_stream_def new_parser_def)
  then have "\<exists>v rest. pending_input ?p = [0xFF, 0xE0, 0x04, 0x6F, 0x35, v, 0x32] @ rest
               \<and> (v = 0x6D \<or> v = 0x63)"
    by blast
  then obtain p' where p': "decode_header ?p = Inr p'"
    using decode_header_spec [OF o] by blast
  then have "has_multiple_object_versions (m_header p')" "pending_input p' = [0xFF]"
    using decode_header_spec [OF o] pend by simp_all
  moreover have "decode_header (new_parser 4096 [[0xFF, 0xE0, 0x04, 0x6F, 0x35, 0x6D]] {})
     = Inl (o5m_error ''file too short (incomplete header info)'')"
    by (simp add: decode_header_def ensure_bytes_available_def bytes_left_def m_end_def
        refill.simps get_input_def string_erase_def string_append_def new_parser_def)
  ultimately show ?thesis using p' by blast
qed

subsection \<open>Nodes\<close>

text \<open>
  The decoders of the code accept what the specification describes as a user block, a
  metadata section and a tag list, and return the values it describes.
\<close>

lemma cstring_terminated: "0 \<notin> set name \<Longrightarrow> cstring (name @ 0 # rest) = name"
  by (induction name) (auto simp: cstring_def)

lemma skip_to_null_terminated:
  "0 \<notin> set name \<Longrightarrow> skip_to_null r msg (name @ 0 # rest) = Inr rest"
  by (induction name) (auto simp: is_end_def)

lemma skip_to_null_checked_terminated:
  "0 \<notin> set name \<Longrightarrow> skip_to_null_checked r msg (name @ 0 # rest) = Inr rest"
  by (induction name) auto

lemma decode_varint_nonempty: "decode_varint data = Inr res \<Longrightarrow> data \<noteq> []"
  by (auto simp: decode_varint_def)

lemma spec_user_block_decode_pair:
  "spec_user_block table data ur rest table' \<Longrightarrow> decode_user table data = Inr (ur, rest, table')"
proof (induction rule: spec_user_block.induct)
  case (anonymous table rest)
  then show ?case
    by (simp add: decode_user_def decode_string_def decode_varint_at_def decode_varint_def
        is_end_def update_pointer_def)
next
  case (inline start uid name rest table)
  have s: "decode_string table (0 # start) = Inr ((in_dataset, start), start)"
    using decode_varint_nonempty [OF inline(1)] by (simp add: decode_string_def)
  show ?case
    using inline s
    by (simp add: decode_user_def decode_varint_at_def is_end_def update_pointer_def
        skip_to_null_checked_terminated cstring_terminated not_less [symmetric])
next
  case (reference b bs index rest table entry uid name junk)
  have s: "decode_string table (b # bs) = Inr ((in_table, entry), rest)"
    using reference by (simp add: decode_string_def)
  show ?case
    using reference s
    by (simp add: decode_user_def decode_varint_at_def is_end_def update_pointer_def
        skip_to_null_checked_terminated cstring_terminated not_less [symmetric])
qed

lemma spec_metadata_decode:
  "spec_metadata p data md rest p' \<Longrightarrow>
   decode_info p (new_node\<lparr>obj_id := i\<rparr>) data
     = Inr (p', \<lparr>obj_id = i, obj_version = md_version md, obj_timestamp = md_timestamp md,
                 obj_changeset = md_changeset md, obj_uid = md_uid md, obj_user = [],
                 obj_visible = True, obj_tags = [], node_location = Location_invalid\<rparr>,
            md_user md, rest)"
proof (induction rule: spec_metadata.induct)
  case (no_metadata p rest)
  then show ?case by (simp add: decode_info_def new_node_def)
next
  case (version_only b bs version data1 dt rest p)
  then show ?case
    by (simp add: decode_info_def new_node_def not_less [symmetric])
next
  case (no_author b bs version data1 dt data2 p dc)
  then show ?case
    by (simp add: decode_info_def new_node_def not_less [symmetric] Let_def)
next
  case (author b bs version data1 dt data2 p dc data3 uid user rest table)
  note u = spec_user_block_decode_pair [OF author(8)]
  show ?case
    using author(1-7) u
    by (simp add: decode_info_def new_node_def not_less [symmetric] Let_def)
qed

lemma spec_metadata_frame:
  assumes "spec_metadata p data md rest p'"
  shows "m_delta_id p' = m_delta_id p" "m_delta_lon p' = m_delta_lon p"
    "m_delta_lat p' = m_delta_lat p"
  using assms by (auto elim: spec_metadata.cases)

lemma spec_tag_list_decode:
  "spec_tag_list table data tags table' \<Longrightarrow> decode_tags_if_any table data = Inr (tags, table')"
proof (induction rule: spec_tag_list.induct)
  case (no_tags table)
  then show ?case by (simp add: decode_tags_if_any_def)
next
  case (inline_pair k v table rest tags table')
  have s: "decode_string table (0 # k @ 0 # v @ 0 # rest)
             = Inr ((in_dataset, k @ 0 # v @ 0 # rest), k @ 0 # v @ 0 # rest)"
    by (simp add: decode_string_def)
  have t: "decode_tag table (0 # k @ 0 # v @ 0 # rest)
             = Inr ((k, v), rest, ReferenceTable_add (k @ 0 # v @ [0]) table)"
    using inline_pair(1,2) s
    by (simp add: decode_tag_def skip_to_null_terminated cstring_terminated is_end_def
        update_pointer_def)
  have r: "decode_tags (ReferenceTable_add (k @ 0 # v @ [0]) table) rest = Inr (tags, table')"
    using inline_pair.IH by (simp add: decode_tags_if_any_def decode_tags.simps split: if_splits)
  show ?case
    using t r by (simp add: decode_tags_if_any_def decode_tags.simps [of table "0 # _"])
next
  case (referenced_pair b bs index rest table k v junk tags table')
  have s: "decode_string table (b # bs) = Inr ((in_table, k @ 0 # v @ 0 # junk), rest)"
    using referenced_pair(1-3) by (simp add: decode_string_def)
  have t: "decode_tag table (b # bs) = Inr ((k, v), rest, table)"
    using referenced_pair(1,4,5) s
    by (simp add: decode_tag_def skip_to_null_terminated cstring_terminated is_end_def
        update_pointer_def)
  have r: "decode_tags table rest = Inr (tags, table')"
    using referenced_pair.IH by (simp add: decode_tags_if_any_def decode_tags.simps split: if_splits)
  show ?case
    using t r by (simp add: decode_tags_if_any_def decode_tags.simps [of table "b # bs"])
qed

text \<open>
  A node on a payload whose metadata section and tag list are as the specification
  describes them.
\<close>

lemma decode_node_described:
  assumes "zvarint data = Inr (d, data1)"
    and "spec_metadata (p\<lparr>m_delta_id := m_delta_id p + d\<rparr>) data1 md data2 p2"
  shows "(data2 = [] \<longrightarrow>
            decode_node p data
              = Inr (p2, \<lparr>obj_id = m_delta_id p + d, obj_version = md_version md,
                          obj_timestamp = md_timestamp md, obj_changeset = md_changeset md,
                          obj_uid = md_uid md, obj_user = md_user md, obj_visible = False,
                          obj_tags = [], node_location = Location_invalid\<rparr>))
       \<and> (data2 \<noteq> [] \<longrightarrow>
            (\<forall>e. zvarint data2 = Inl e \<longrightarrow> decode_node p data = Inl e)
            \<and> (\<forall>dlon data3. zvarint data2 = Inr (dlon, data3) \<longrightarrow>
                 (\<forall>e. zvarint data3 = Inl e \<longrightarrow> decode_node p data = Inl e)
                 \<and> (\<forall>dlat data4 tags table'.
                      zvarint data3 = Inr (dlat, data4)
                      \<and> spec_tag_list (m_reference_table p2) data4 tags table' \<longrightarrow>
                      decode_node p data
                        = Inr (p2\<lparr>m_delta_lon := m_delta_lon p + dlon,
                                  m_delta_lat := m_delta_lat p + dlat,
                                  m_reference_table := table'\<rparr>,
                               \<lparr>obj_id = m_delta_id p + d, obj_version = md_version md,
                                obj_timestamp = md_timestamp md,
                                obj_changeset = md_changeset md, obj_uid = md_uid md,
                                obj_user = md_user md, obj_visible = True, obj_tags = tags,
                                node_location =
                                  Location (ucast (m_delta_lon p + dlon))
                                           (ucast (m_delta_lat p + dlat))\<rparr>))))"
proof -
  define object :: Node where
    "object = \<lparr>obj_id = m_delta_id p + d, obj_version = md_version md,
               obj_timestamp = md_timestamp md, obj_changeset = md_changeset md,
               obj_uid = md_uid md, obj_user = [], obj_visible = True, obj_tags = [],
               node_location = Location_invalid\<rparr>"
  have i: "decode_info (p\<lparr>m_delta_id := m_delta_id p + d\<rparr>)
             (new_node\<lparr>obj_id := m_delta_id p + d\<rparr>) data1
             = Inr (p2, object, md_user md, data2)"
    unfolding object_def by (rule spec_metadata_decode [OF assms(2)])
  note u = decode_node_unfold [OF assms(1) i]
  have lon: "m_delta_lon p2 = m_delta_lon p" and lat: "m_delta_lat p2 = m_delta_lat p"
    using spec_metadata_frame [OF assms(2)] by simp_all
  have a: "data2 = [] \<longrightarrow>
            decode_node p data
              = Inr (p2, \<lparr>obj_id = m_delta_id p + d, obj_version = md_version md,
                          obj_timestamp = md_timestamp md, obj_changeset = md_changeset md,
                          obj_uid = md_uid md, obj_user = md_user md, obj_visible = False,
                          obj_tags = [], node_location = Location_invalid\<rparr>)"
    using u by (simp add: object_def)
  have b: "decode_node p data = Inl e" if "data2 \<noteq> []" "zvarint data2 = Inl e" for e
    using u that by simp
  have c: "decode_node p data = Inl e"
    if "data2 \<noteq> []" "zvarint data2 = Inr (dlon, data3)" "zvarint data3 = Inl e"
    for e dlon data3
    using u that by simp
  have t: "decode_node p data
             = Inr (p2\<lparr>m_delta_lon := m_delta_lon p + dlon,
                       m_delta_lat := m_delta_lat p + dlat,
                       m_reference_table := table'\<rparr>,
                    \<lparr>obj_id = m_delta_id p + d, obj_version = md_version md,
                     obj_timestamp = md_timestamp md,
                     obj_changeset = md_changeset md, obj_uid = md_uid md,
                     obj_user = md_user md, obj_visible = True, obj_tags = tags,
                     node_location =
                       Location (ucast (m_delta_lon p + dlon))
                                (ucast (m_delta_lat p + dlat))\<rparr>)"
    if "data2 \<noteq> []" "zvarint data2 = Inr (dlon, data3)" "zvarint data3 = Inr (dlat, data4)"
      "spec_tag_list (m_reference_table p2) data4 tags table'"
    for dlon data3 dlat data4 tags table'
    using u that spec_tag_list_decode [OF that(4)] by (simp add: object_def lon lat)
  show ?thesis using a b c t by blast
qed

text \<open>A node after any metadata that \<open>decode_info\<close> accepts.\<close>

lemma decode_node_after_info:
  assumes "zvarint data = Inr (d, data1)"
    and "decode_info (p\<lparr>m_delta_id := m_delta_id p + d\<rparr>)
           (new_node\<lparr>obj_id := m_delta_id p + d\<rparr>) data1 = Inr (p2, object, user, data2)"
  shows "(data2 = [] \<longrightarrow>
            decode_node p data
              = Inr (p2, object\<lparr>obj_user := user, obj_visible := False,
                                 node_location := Location_invalid\<rparr>)
            \<and> obj_id object = m_delta_id p + d \<and> obj_tags object = [])
       \<and> (data2 \<noteq> [] \<longrightarrow>
            decode_node p data =
              (case zvarint data2 of
                 Inl e \<Rightarrow> Inl e
               | Inr (dlon, data3) \<Rightarrow>
                   (case zvarint data3 of
                      Inl e \<Rightarrow> Inl e
                    | Inr (dlat, data4) \<Rightarrow>
                        (case decode_tags_if_any (m_reference_table p2) data4 of
                           Inl e \<Rightarrow> Inl e
                         | Inr (tags, table) \<Rightarrow>
                             Inr (p2\<lparr>m_delta_lon := m_delta_lon p2 + dlon,
                                     m_delta_lat := m_delta_lat p2 + dlat,
                                     m_reference_table := table\<rparr>,
                                  object\<lparr>obj_user := user,
                                         node_location :=
                                           Location (ucast (m_delta_lon p2 + dlon))
                                                    (ucast (m_delta_lat p2 + dlat)),
                                         obj_tags := tags\<rparr>)))))
       \<and> (\<forall>p' node. data2 \<noteq> [] \<and> decode_node p data = Inr (p', node) \<longrightarrow>
             obj_id node = m_delta_id p + d \<and> obj_visible node \<and>
             node_location node \<noteq> Location_invalid)"
proof -
  note f = decode_info_frame [OF assms(2)]
  have obj: "obj_id object = m_delta_id p + d" "obj_visible object" "obj_tags object = []"
    using f(2,3,4) by (simp_all add: new_node_def)
  note u = decode_node_unfold [OF assms]
  have a: "data2 = [] \<longrightarrow>
            decode_node p data
              = Inr (p2, object\<lparr>obj_user := user, obj_visible := False,
                                 node_location := Location_invalid\<rparr>)
            \<and> obj_id object = m_delta_id p + d \<and> obj_tags object = []"
    using u obj by simp
  have c: "obj_id node = m_delta_id p + d \<and> obj_visible node \<and>
             node_location node \<noteq> Location_invalid"
    if "data2 \<noteq> []" "decode_node p data = Inr (p', node)" for p' node
    using that u obj by (auto split: sum.splits prod.splits)
  show ?thesis using a u c by simp
qed

text \<open>
  Claim C6. Let the payload of a node dataset begin with a zig-zag id delta \<open>d\<close>, and
  let \<open>data1\<close> be what follows it.

  If \<open>data1\<close> begins with a metadata section as the specification describes it, with the
  values \<open>md\<close>, and \<open>data2\<close> is the rest of the payload: if nothing is left, the node
  carries the id and the metadata, is not visible, has the invalid location and no tags.
  Otherwise two zig-zag varints are read (an error of either is the error of the decoder)
  and added to the running longitude and latitude, which become the location of the
  node, the node is visible, and when the rest of the payload is a tag list as the
  specification describes it, the node has exactly these tags.

  For any metadata that \<open>decode_info\<close> accepts, leaving the rest \<open>data2\<close>: if nothing is
  left, the node is the object with the visible flag cleared and the invalid location,
  and it has no tags. Otherwise the two zig-zag varints are read and added to the running
  longitude and latitude, which give the location, and whatever is left then goes through
  the decoder of the tags; such a node is visible and its location is not the invalid
  one.
\<close>

theorem decode_node_spec:
  assumes "zvarint data = Inr (d, data1)"
  shows
   "(\<forall>md data2 p2.
       spec_metadata (p\<lparr>m_delta_id := m_delta_id p + d\<rparr>) data1 md data2 p2 \<longrightarrow>
         (data2 = [] \<longrightarrow>
            decode_node p data
              = Inr (p2, \<lparr>obj_id = m_delta_id p + d, obj_version = md_version md,
                          obj_timestamp = md_timestamp md, obj_changeset = md_changeset md,
                          obj_uid = md_uid md, obj_user = md_user md, obj_visible = False,
                          obj_tags = [], node_location = Location_invalid\<rparr>))
         \<and> (data2 \<noteq> [] \<longrightarrow>
              (\<forall>e. zvarint data2 = Inl e \<longrightarrow> decode_node p data = Inl e)
              \<and> (\<forall>dlon data3. zvarint data2 = Inr (dlon, data3) \<longrightarrow>
                   (\<forall>e. zvarint data3 = Inl e \<longrightarrow> decode_node p data = Inl e)
                   \<and> (\<forall>dlat data4 tags table'.
                        zvarint data3 = Inr (dlat, data4)
                        \<and> spec_tag_list (m_reference_table p2) data4 tags table' \<longrightarrow>
                        decode_node p data
                          = Inr (p2\<lparr>m_delta_lon := m_delta_lon p + dlon,
                                    m_delta_lat := m_delta_lat p + dlat,
                                    m_reference_table := table'\<rparr>,
                                 \<lparr>obj_id = m_delta_id p + d, obj_version = md_version md,
                                  obj_timestamp = md_timestamp md,
                                  obj_changeset = md_changeset md, obj_uid = md_uid md,
                                  obj_user = md_user md, obj_visible = True, obj_tags = tags,
                                  node_location =
                                    Location (ucast (m_delta_lon p + dlon))
                                             (ucast (m_delta_lat p + dlat))\<rparr>)))))
    \<and> (\<forall>p2 object user data2.
         decode_info (p\<lparr>m_delta_id := m_delta_id p + d\<rparr>)
           (new_node\<lparr>obj_id := m_delta_id p + d\<rparr>) data1 = Inr (p2, object, user, data2) \<longrightarrow>
           (data2 = [] \<longrightarrow>
              decode_node p data
                = Inr (p2, object\<lparr>obj_user := user, obj_visible := False,
                                   node_location := Location_invalid\<rparr>)
              \<and> obj_id object = m_delta_id p + d \<and> obj_tags object = [])
           \<and> (data2 \<noteq> [] \<longrightarrow>
                decode_node p data =
                  (case zvarint data2 of
                     Inl e \<Rightarrow> Inl e
                   | Inr (dlon, data3) \<Rightarrow>
                       (case zvarint data3 of
                          Inl e \<Rightarrow> Inl e
                        | Inr (dlat, data4) \<Rightarrow>
                            (case decode_tags_if_any (m_reference_table p2) data4 of
                               Inl e \<Rightarrow> Inl e
                             | Inr (tags, table) \<Rightarrow>
                                 Inr (p2\<lparr>m_delta_lon := m_delta_lon p2 + dlon,
                                         m_delta_lat := m_delta_lat p2 + dlat,
                                         m_reference_table := table\<rparr>,
                                      object\<lparr>obj_user := user,
                                             node_location :=
                                               Location (ucast (m_delta_lon p2 + dlon))
                                                        (ucast (m_delta_lat p2 + dlat)),
                                             obj_tags := tags\<rparr>)))))
           \<and> (\<forall>p' node. data2 \<noteq> [] \<and> decode_node p data = Inr (p', node) \<longrightarrow>
                 obj_id node = m_delta_id p + d \<and> obj_visible node \<and>
                 node_location node \<noteq> Location_invalid))"
  (is "?described \<and> ?general")
proof (rule conjI)
  show ?described
    by (intro allI impI) (rule decode_node_described [OF assms])
  show ?general
    by (intro allI impI) (rule decode_node_after_info [OF assms])
qed

text \<open>
  The theorem at two payloads read by a fresh parser. The first is node 1 in version 1
  with timestamp 1, changeset 2, the user 7 named \<open>u\<close> given inline, longitude 2,
  latitude 3 and the inline tag \<open>k\<close> = \<open>v\<close>; the user block and the tag are registered in
  the reference table. The second ends behind the changeset: node 1 is deleted.
\<close>

theorem decode_node_spec_witness:
  "decode_node (new_parser 4096 [] {item_node})
     [0x02, 0x01, 0x02, 0x04, 0x00, 0x07, 0x00, 0x75, 0x00, 0x04, 0x06, 0x00, 0x6B, 0x00, 0x76, 0x00]
     = Inr ((new_parser 4096 [] {item_node})
              \<lparr>m_reference_table :=
                 ReferenceTable_add [0x6B, 0x00, 0x76, 0x00]
                   (ReferenceTable_add [0x07, 0x00, 0x75, 0x00] ReferenceTable_init),
               m_delta_id := 1, m_delta_timestamp := 1, m_delta_changeset := 2,
               m_delta_lon := 2, m_delta_lat := 3\<rparr>,
            \<lparr>obj_id = 1, obj_version = 1, obj_timestamp = 1, obj_changeset = 2, obj_uid = 7,
             obj_user = [0x75], obj_visible = True, obj_tags = [([0x6B], [0x76])],
             node_location = Location 2 3\<rparr>)
   \<and> decode_node (new_parser 4096 [] {item_node}) [0x02, 0x01, 0x02, 0x04]
     = Inr ((new_parser 4096 [] {item_node})
              \<lparr>m_delta_id := 1, m_delta_timestamp := 1, m_delta_changeset := 2\<rparr>,
            \<lparr>obj_id = 1, obj_version = 1, obj_timestamp = 1, obj_changeset = 2, obj_uid = 0,
             obj_user = [], obj_visible = False, obj_tags = [],
             node_location = Location_invalid\<rparr>)"
proof -
  let ?p = "new_parser 4096 [] {item_node}"
  let ?p1 = "?p\<lparr>m_delta_id := m_delta_id ?p + 1\<rparr>"
  let ?T = "ReferenceTable_add [0x07, 0x00, 0x75, 0x00] ReferenceTable_init"
  let ?tags = "[0x00, 0x6B, 0x00, 0x76, 0x00] :: byte list"
  let ?tail = "[0x04, 0x06, 0x00, 0x6B, 0x00, 0x76, 0x00] :: byte list"
  let ?user = "[0x00, 0x07, 0x00, 0x75, 0x00, 0x04, 0x06, 0x00, 0x6B, 0x00, 0x76, 0x00] :: byte list"
  let ?info = "[0x01, 0x02, 0x04, 0x00, 0x07, 0x00, 0x75, 0x00, 0x04, 0x06, 0x00, 0x6B, 0x00, 0x76, 0x00]
                 :: byte list"
  let ?md = "\<lparr>md_version = 1, md_timestamp = 1, md_changeset = 2, md_uid = 7, md_user = [0x75]\<rparr>"
  let ?p2 = "?p1\<lparr>m_delta_timestamp := 1, m_delta_changeset := 2, m_reference_table := ?T\<rparr>"
  have z: "zvarint (0x02 # ?info) = Inr (1, ?info)"
    by (simp add: zvarint_def decode_varint_def decode_zigzag64_def)
  have ub: "spec_user_block (m_reference_table ?p1) ?user (7, [0x75]) ?tail ?T"
    using spec_user_block.inline [where start = "tl ?user" and uid = 7 and name = "[0x75]"
        and rest = ?tail and table = ReferenceTable_init]
    by (simp add: decode_varint_def new_parser_def)
  have sm: "spec_metadata ?p1 ?info ?md ?tail ?p2"
    using spec_metadata.author [where b = 1 and bs = "tl ?info" and version = 1
        and ?data1.0 = "tl ?info" and dt = 1 and ?data2.0 = "tl (tl ?info)" and p = ?p1
        and dc = 2 and ?data3.0 = ?user and uid = 7 and user = "[0x75]" and rest = ?tail
        and table = ?T] ub
    by (simp add: zvarint_def decode_varint_def decode_zigzag64_def new_parser_def)
  have ne: "?tail \<noteq> []" by simp
  have z2: "zvarint ?tail = Inr (2, tl ?tail)"
    by (simp add: zvarint_def decode_varint_def decode_zigzag64_def)
  have z3: "zvarint (tl ?tail) = Inr (3, ?tags)"
    by (simp add: zvarint_def decode_varint_def decode_zigzag64_def)
  have tg: "spec_tag_list (m_reference_table ?p2) ?tags [([0x6B], [0x76])]
              (ReferenceTable_add [0x6B, 0x00, 0x76, 0x00] ?T)"
    using spec_tag_list.inline_pair [where k = "[0x6B]" and v = "[0x76]" and table = ?T
        and rest = "[]" and tags = "[]"
        and table' = "ReferenceTable_add [0x6B, 0x00, 0x76, 0x00] ?T"]
      spec_tag_list.no_tags [of "ReferenceTable_add [0x6B, 0x00, 0x76, 0x00] ?T"]
    by simp
  note live = decode_node_spec [OF z, THEN conjunct1, THEN spec, THEN spec, THEN spec, THEN mp,
      OF sm, THEN conjunct2, THEN mp, OF ne, THEN conjunct2,
      THEN spec, THEN spec, THEN mp, OF z2, THEN conjunct2, THEN spec, THEN spec, THEN spec,
      THEN spec, THEN mp, OF conjI [OF z3 tg]]
  have n1: "decode_node ?p (0x02 # ?info)
     = Inr (?p\<lparr>m_reference_table := ReferenceTable_add [0x6B, 0x00, 0x76, 0x00] ?T,
               m_delta_id := 1, m_delta_timestamp := 1, m_delta_changeset := 2,
               m_delta_lon := 2, m_delta_lat := 3\<rparr>,
            \<lparr>obj_id = 1, obj_version = 1, obj_timestamp = 1, obj_changeset = 2, obj_uid = 7,
             obj_user = [0x75], obj_visible = True, obj_tags = [([0x6B], [0x76])],
             node_location = Location 2 3\<rparr>)"
    using live by (simp add: new_parser_def)
  let ?md' = "\<lparr>md_version = 1, md_timestamp = 1, md_changeset = 2, md_uid = 0, md_user = []\<rparr>"
  let ?q2 = "?p1\<lparr>m_delta_timestamp := m_delta_timestamp ?p1 + 1,
                  m_delta_changeset := m_delta_changeset ?p1 + 2\<rparr>"
  have z': "zvarint [0x02, 0x01, 0x02, 0x04] = Inr (1, [0x01, 0x02, 0x04])"
    by (simp add: zvarint_def decode_varint_def decode_zigzag64_def)
  have sm': "spec_metadata ?p1 [0x01, 0x02, 0x04] ?md' [] ?q2"
    using spec_metadata.no_author [where b = 1 and bs = "[0x02, 0x04]" and version = 1
        and ?data1.0 = "[0x02, 0x04]" and dt = 1 and ?data2.0 = "[0x04]" and p = ?p1
        and dc = 2]
    by (simp add: zvarint_def decode_varint_def decode_zigzag64_def new_parser_def)
  note deleted = decode_node_spec [OF z', THEN conjunct1, THEN spec, THEN spec, THEN spec,
      THEN mp, OF sm', THEN conjunct1, THEN mp, OF refl]
  have n2: "decode_node ?p [0x02, 0x01, 0x02, 0x04]
     = Inr (?p\<lparr>m_delta_id := 1, m_delta_timestamp := 1, m_delta_changeset := 2\<rparr>,
            \<lparr>obj_id = 1, obj_version = 1, obj_timestamp = 1, obj_changeset = 2, obj_uid = 0,
             obj_user = [], obj_visible = False, obj_tags = [],
             node_location = Location_invalid\<rparr>)"
    using deleted by (simp add: new_parser_def)
  show ?thesis using n1 n2 by simp
qed

end
